theory Spec2Isabelle
  imports Main
begin

section \<open>The batcher (package batcher)\<close>

text \<open>
  A Go \<^verbatim>\<open>error\<close> result is an option: \<open>None\<close> is \<^verbatim>\<open>nil\<close>. The batcher produces
  one error of its own (\<^verbatim>\<open>errors.New("batcher: no flush function configured")\<close>);
  every other error it returns comes from the flush function.
\<close>

datatype 'e batcher_error = ErrNoFlushFn | ErrSink 'e

text \<open>
  Everything outside the batcher that a flush can touch: the state of the sink
  (\<open>sink_state\<close>, of any type), and the list of the batches the flush function has been
  called with, oldest first (\<open>sink_calls\<close>). A flush function takes the batch and the
  sink's state and returns its error and the sink's new state.
\<close>

record ('a, 'w) env =
  sink_state :: 'w
  sink_calls :: "'a list list"

type_synonym ('a, 'e, 'w) flush_fn = "'a list \<Rightarrow> 'w \<Rightarrow> 'e option \<times> 'w"

text \<open>
  The struct \<^verbatim>\<open>Batcher[T]\<close>. The mutex \<^verbatim>\<open>mu\<close> has no field: a critical section is one
  function of the model. \<open>flushFn = None\<close> is a nil function value, \<open>stop\<close> says whether the
  channel has been closed, \<open>wg\<close> is the counter of the wait group, \<open>interval\<close> is in
  nanoseconds.
\<close>

record ('a, 'e, 'w) batcher =
  buffer :: "'a list"
  maxSize :: int
  interval :: int
  flushFn :: "('a, 'e, 'w) flush_fn option"
  stop :: bool
  wg :: nat
  lastError :: "'e batcher_error option"

text \<open>\<^verbatim>\<open>New\<close>: the fields it sets; the loop goroutine it starts is part of the interleaving model below.\<close>

definition New :: "int \<Rightarrow> int \<Rightarrow> ('a, 'e, 'w) flush_fn option \<Rightarrow> ('a, 'e, 'w) batcher" where
  "New maxSize' interval' flushFn' =
     \<lparr>buffer = [], maxSize = maxSize', interval = interval', flushFn = flushFn',
      stop = False, wg = 1, lastError = None\<rparr>"

text \<open>
  \<^verbatim>\<open>detach\<close>: a batch is a slice, \<open>None\<close> is the nil slice. An empty buffer gives nil
  and is left as it is; otherwise the batch is a copy of the buffer and the buffer is cut to
  length 0.
\<close>

definition detach :: "('a, 'e, 'w) batcher \<Rightarrow> 'a list option \<times> ('a, 'e, 'w) batcher" where
  "detach b =
     (if length (buffer b) = 0 then (None, b)
      else (Some (buffer b), b\<lparr>buffer := []\<rparr>))"

text \<open>\<^verbatim>\<open>len\<close> of a slice: 0 for nil.\<close>

definition len :: "'a list option \<Rightarrow> nat" where
  "len s = (case s of None \<Rightarrow> 0 | Some xs \<Rightarrow> length xs)"

text \<open>
  \<^verbatim>\<open>runFlush\<close>: nothing for a batch of length 0, the configuration error when there is no
  flush function, else one call of the flush function, whose error is returned.
\<close>

definition runFlush ::
  "('a, 'e, 'w) batcher \<Rightarrow> 'a list option \<Rightarrow> ('a, 'w) env \<Rightarrow> 'e batcher_error option \<times> ('a, 'w) env" where
  "runFlush b batch e =
     (if len batch = 0 then (None, e)
      else case flushFn b of
        None \<Rightarrow> (Some ErrNoFlushFn, e)
      | Some f \<Rightarrow>
          (case f (the batch) (sink_state e) of
             (r, w') \<Rightarrow>
               (map_option ErrSink r,
                e\<lparr>sink_state := w', sink_calls := sink_calls e @ [the batch]\<rparr>)))"

text \<open>
  The critical section of \<^verbatim>\<open>Add\<close> (between Lock and Unlock): append, compare the length with
  \<^verbatim>\<open>maxSize\<close>, detach when it is reached. It gives \<^verbatim>\<open>shouldFlush\<close>, \<^verbatim>\<open>batch\<close> and the batcher.
\<close>

definition Add_locked ::
  "('a, 'e, 'w) batcher \<Rightarrow> 'a \<Rightarrow> bool \<times> 'a list option \<times> ('a, 'e, 'w) batcher" where
  "Add_locked b item =
     (let b1 = b\<lparr>buffer := buffer b @ [item]\<rparr>;
          shouldFlush = (int (length (buffer b1)) \<ge> maxSize b1)
      in if shouldFlush then (case detach b1 of (batch, b2) \<Rightarrow> (shouldFlush, batch, b2))
         else (shouldFlush, None, b1))"

text \<open>\<^verbatim>\<open>Add\<close>, run with nothing else in between: the critical section, then the flush it asks for.\<close>

definition Add ::
  "('a, 'e, 'w) batcher \<Rightarrow> 'a \<Rightarrow> ('a, 'w) env \<Rightarrow>
   'e batcher_error option \<times> ('a, 'e, 'w) batcher \<times> ('a, 'w) env" where
  "Add b item e =
     (case Add_locked b item of
        (shouldFlush, batch, b') \<Rightarrow>
          if shouldFlush then (case runFlush b' batch e of (err, e') \<Rightarrow> (err, b', e'))
          else (None, b', e))"

text \<open>\<^verbatim>\<open>Flush\<close>: detach under the lock, then \<^verbatim>\<open>runFlush\<close> outside it.\<close>

definition Flush ::
  "('a, 'e, 'w) batcher \<Rightarrow> ('a, 'w) env \<Rightarrow>
   'e batcher_error option \<times> ('a, 'e, 'w) batcher \<times> ('a, 'w) env" where
  "Flush b e =
     (case detach b of
        (batch, b') \<Rightarrow> (case runFlush b' batch e of (err, e') \<Rightarrow> (err, b', e')))"

text \<open>\<^verbatim>\<open>LastError\<close>: the field, read under the lock.\<close>

definition LastError :: "('a, 'e, 'w) batcher \<Rightarrow> 'e batcher_error option" where
  "LastError b = lastError b"

text \<open>
  One turn of \<^verbatim>\<open>loop\<close> on \<^verbatim>\<open>case <-ticker.C\<close>, run with nothing else in between: the flush,
  and the store of its error when it is not nil. Nothing is returned.
\<close>

definition tick :: "('a, 'e, 'w) batcher \<Rightarrow> ('a, 'w) env \<Rightarrow> ('a, 'e, 'w) batcher \<times> ('a, 'w) env" where
  "tick b e =
     (case Flush b e of
        (err, b', e') \<Rightarrow> if err \<noteq> None then (b'\<lparr>lastError := err\<rparr>, e') else (b', e'))"

section \<open>Interleavings of the goroutines\<close>

text \<open>
  The goroutines that use one batcher: any number of callers of \<^verbatim>\<open>Add\<close>, \<^verbatim>\<open>Flush\<close> and
  \<^verbatim>\<open>LastError\<close> (numbered), the goroutine of \<^verbatim>\<open>loop\<close> that \<^verbatim>\<open>New\<close> starts, and the one caller
  of \<^verbatim>\<open>Close\<close>. Each goroutine moves in steps; a step is what it does under the lock, or one
  call of \<^verbatim>\<open>runFlush\<close>, or one channel or wait group operation. An interleaving is the list
  of the steps taken, in order.
\<close>

datatype actor = Caller nat | Ticker | Closer

text \<open>What is written down of a run: each append, each call of \<^verbatim>\<open>detach\<close> with the batch it
  gave, each call of \<^verbatim>\<open>runFlush\<close> with its batch and the error it returned.\<close>

datatype ('a, 'e) event =
    Appended 'a
  | Detached actor "'a list option"
  | Flushed actor "'a list option" "'e batcher_error option"

text \<open>Where a caller is: in no call, between Unlock and \<^verbatim>\<open>runFlush\<close> with its batch, or back
  from its call with the error returned.\<close>

datatype ('a, 'e) call_pc =
    CallIdle
  | CallRunFlush "'a list option"
  | CallReturned "'e batcher_error option"

text \<open>Where \<^verbatim>\<open>loop\<close> is: at the select, inside \<^verbatim>\<open>Flush\<close> between Unlock and \<^verbatim>\<open>runFlush\<close>,
  before the store of a non-nil error, or returned (\<^verbatim>\<open>wg.Done\<close> has run).\<close>

datatype ('a, 'e) loop_pc =
    LoopSelect
  | LoopRunFlush "'a list option"
  | LoopStore "'e batcher_error option"
  | LoopExited

text \<open>Where \<^verbatim>\<open>Close\<close> is: not called, in \<^verbatim>\<open>wg.Wait\<close>, before its \<^verbatim>\<open>Flush\<close>, inside that
  \<^verbatim>\<open>Flush\<close> between Unlock and \<^verbatim>\<open>runFlush\<close>, or returned with its error.\<close>

datatype ('a, 'e) close_pc =
    CloseNotCalled
  | CloseWait
  | CloseFlush
  | CloseRunFlush "'a list option"
  | CloseReturned "'e batcher_error option"

record ('a, 'e, 'w) config =
  shared :: "('a, 'e, 'w) batcher"
  outside :: "('a, 'w) env"
  call_at :: "nat \<Rightarrow> ('a, 'e) call_pc"
  loop_at :: "('a, 'e) loop_pc"
  close_at :: "('a, 'e) close_pc"
  history :: "('a, 'e) event list"

datatype 'a action =
    EnterAdd nat 'a
  | EnterFlush nat
  | CallLastError nat
  | CallerRunFlush nat
  | LoopTick
  | LoopRunsFlush
  | LoopStoresError
  | LoopStops
  | CloseStop
  | CloseJoin
  | CloseEntersFlush
  | CloseRunsFlush

definition in_call :: "('a, 'e) call_pc \<Rightarrow> bool" where
  "in_call pc = (case pc of CallRunFlush batch \<Rightarrow> True | _ \<Rightarrow> False)"

text \<open>The state right after \<^verbatim>\<open>New\<close> has returned: the loop goroutine is at its select. (It
  gets there when \<^verbatim>\<open>interval\<close> is positive; \<^verbatim>\<open>time.NewTicker\<close> panics otherwise.)\<close>

definition start ::
  "int \<Rightarrow> int \<Rightarrow> ('a, 'e, 'w) flush_fn option \<Rightarrow> ('a, 'w) env \<Rightarrow> ('a, 'e, 'w) config" where
  "start maxSize' interval' flushFn' e =
     \<lparr>shared = New maxSize' interval' flushFn', outside = e, call_at = (\<lambda>t. CallIdle),
      loop_at = LoopSelect, close_at = CloseNotCalled, history = []\<rparr>"

text \<open>
  One step; \<open>None\<close> when the goroutine is not at a place where it can take it.
  \<^item> \<open>EnterAdd t x\<close>: the critical section of \<^verbatim>\<open>Add(x)\<close>; without a flush the call returns nil.
  \<^item> \<open>EnterFlush t\<close>: the critical section of \<^verbatim>\<open>Flush\<close>.
  \<^item> \<open>CallLastError t\<close>: the whole of \<^verbatim>\<open>LastError\<close>.
  \<^item> \<open>CallerRunFlush t\<close>: \<^verbatim>\<open>runFlush\<close> on the batch in hand, and the return.
  \<^item> \<open>LoopTick\<close>: the select receives from \<^verbatim>\<open>ticker.C\<close> (which case a select takes when
    several are ready is not determined, so a closed \<^verbatim>\<open>stop\<close> does not exclude it), then the
    critical section of \<^verbatim>\<open>Flush\<close>.
  \<^item> \<open>LoopRunsFlush\<close>: \<^verbatim>\<open>runFlush\<close>; \<open>LoopStoresError\<close>: the store under the lock.
  \<^item> \<open>LoopStops\<close>: the select receives from the closed \<^verbatim>\<open>stop\<close>; return, \<^verbatim>\<open>wg.Done\<close>.
  \<^item> \<open>CloseStop\<close>: \<^verbatim>\<open>close(b.stop)\<close>, a panic (no step) when it is closed already.
  \<^item> \<open>CloseJoin\<close>: \<^verbatim>\<open>wg.Wait\<close> returns, which it does when the counter is 0.
  \<^item> \<open>CloseEntersFlush\<close>, \<open>CloseRunsFlush\<close>: the two halves of the final \<^verbatim>\<open>Flush\<close>.
\<close>

fun step :: "'a action \<Rightarrow> ('a, 'e, 'w) config \<Rightarrow> ('a, 'e, 'w) config option" where
  "step (EnterAdd t x) c =
     (if in_call (call_at c t) then None
      else case Add_locked (shared c) x of
        (shouldFlush, batch, b') \<Rightarrow>
          Some (c\<lparr>shared := b',
                  call_at := (call_at c)(t := if shouldFlush then CallRunFlush batch else CallReturned None),
                  history := history c @ Appended x #
                    (if shouldFlush then [Detached (Caller t) batch] else [])\<rparr>))"
| "step (EnterFlush t) c =
     (if in_call (call_at c t) then None
      else case detach (shared c) of
        (batch, b') \<Rightarrow>
          Some (c\<lparr>shared := b', call_at := (call_at c)(t := CallRunFlush batch),
                  history := history c @ [Detached (Caller t) batch]\<rparr>))"
| "step (CallLastError t) c =
     (if in_call (call_at c t) then None
      else Some (c\<lparr>call_at := (call_at c)(t := CallReturned (LastError (shared c)))\<rparr>))"
| "step (CallerRunFlush t) c =
     (case call_at c t of
        CallRunFlush batch \<Rightarrow>
          (case runFlush (shared c) batch (outside c) of
             (err, e') \<Rightarrow>
               Some (c\<lparr>outside := e', call_at := (call_at c)(t := CallReturned err),
                       history := history c @ [Flushed (Caller t) batch err]\<rparr>))
      | _ \<Rightarrow> None)"
| "step LoopTick c =
     (case loop_at c of
        LoopSelect \<Rightarrow>
          (case detach (shared c) of
             (batch, b') \<Rightarrow>
               Some (c\<lparr>shared := b', loop_at := LoopRunFlush batch,
                       history := history c @ [Detached Ticker batch]\<rparr>))
      | _ \<Rightarrow> None)"
| "step LoopRunsFlush c =
     (case loop_at c of
        LoopRunFlush batch \<Rightarrow>
          (case runFlush (shared c) batch (outside c) of
             (err, e') \<Rightarrow>
               Some (c\<lparr>outside := e',
                       loop_at := (if err \<noteq> None then LoopStore err else LoopSelect),
                       history := history c @ [Flushed Ticker batch err]\<rparr>))
      | _ \<Rightarrow> None)"
| "step LoopStoresError c =
     (case loop_at c of
        LoopStore err \<Rightarrow>
          Some (c\<lparr>shared := (shared c)\<lparr>lastError := err\<rparr>, loop_at := LoopSelect\<rparr>)
      | _ \<Rightarrow> None)"
| "step LoopStops c =
     (case loop_at c of
        LoopSelect \<Rightarrow>
          (if stop (shared c)
           then Some (c\<lparr>shared := (shared c)\<lparr>wg := wg (shared c) - 1\<rparr>, loop_at := LoopExited\<rparr>)
           else None)
      | _ \<Rightarrow> None)"
| "step CloseStop c =
     (case close_at c of
        CloseNotCalled \<Rightarrow>
          (if stop (shared c) then None
           else Some (c\<lparr>shared := (shared c)\<lparr>stop := True\<rparr>, close_at := CloseWait\<rparr>))
      | _ \<Rightarrow> None)"
| "step CloseJoin c =
     (case close_at c of
        CloseWait \<Rightarrow> (if wg (shared c) = 0 then Some (c\<lparr>close_at := CloseFlush\<rparr>) else None)
      | _ \<Rightarrow> None)"
| "step CloseEntersFlush c =
     (case close_at c of
        CloseFlush \<Rightarrow>
          (case detach (shared c) of
             (batch, b') \<Rightarrow>
               Some (c\<lparr>shared := b', close_at := CloseRunFlush batch,
                       history := history c @ [Detached Closer batch]\<rparr>))
      | _ \<Rightarrow> None)"
| "step CloseRunsFlush c =
     (case close_at c of
        CloseRunFlush batch \<Rightarrow>
          (case runFlush (shared c) batch (outside c) of
             (err, e') \<Rightarrow>
               Some (c\<lparr>outside := e', close_at := CloseReturned err,
                       history := history c @ [Flushed Closer batch err]\<rparr>))
      | _ \<Rightarrow> None)"

text \<open>An interleaving, step by step; \<open>None\<close> when one of its steps cannot be taken.\<close>

fun run :: "'a action list \<Rightarrow> ('a, 'e, 'w) config \<Rightarrow> ('a, 'e, 'w) config option" where
  "run [] c = Some c"
| "run (a # as) c = (case step a c of None \<Rightarrow> None | Some c' \<Rightarrow> run as c')"

text \<open>Read off a history: the items appended, the batches detached (nil left out), the
  calls of \<^verbatim>\<open>runFlush\<close> of one actor that reached the flush function, and all events of one actor.\<close>

fun appended :: "('a, 'e) event list \<Rightarrow> 'a list" where
  "appended [] = []"
| "appended (Appended x # evs) = x # appended evs"
| "appended (ev # evs) = appended evs"

fun batches :: "('a, 'e) event list \<Rightarrow> 'a list list" where
  "batches [] = []"
| "batches (Detached who (Some xs) # evs) = xs # batches evs"
| "batches (ev # evs) = batches evs"

fun event_actor :: "('a, 'e) event \<Rightarrow> actor option" where
  "event_actor (Appended x) = None"
| "event_actor (Detached who batch) = Some who"
| "event_actor (Flushed who batch err) = Some who"

definition events_of :: "actor \<Rightarrow> ('a, 'e) event list \<Rightarrow> ('a, 'e) event list" where
  "events_of who evs = filter (\<lambda>ev. event_actor ev = Some who) evs"

subsection \<open>What the runs keep\<close>

text \<open>What every step keeps: the batches detached so far, in the order of their detaching
  and followed by the buffer, are the items appended so far, in the order of their
  appending; and no batch is empty.\<close>

definition accounted :: "('a, 'e, 'w) config \<Rightarrow> bool" where
  "accounted c \<longleftrightarrow>
     concat (batches (history c)) @ buffer (shared c) = appended (history c) \<and>
     [] \<notin> set (batches (history c))"

text \<open>Read off a history: the calls of \<^verbatim>\<open>runFlush\<close> with a batch of length above 0, which are
  the calls that go on to the flush function when there is one, each with its actor.\<close>

fun delivered :: "('a, 'e) event list \<Rightarrow> (actor \<times> 'a list) list" where
  "delivered [] = []"
| "delivered (Flushed who (Some xs) err # evs) =
     (if xs = [] then delivered evs else (who, xs) # delivered evs)"
| "delivered (ev # evs) = delivered evs"



text \<open>The list of the sink's calls is the list at the start followed by the batches that
  the history says went to the flush function.\<close>

definition sink_log_inv ::
  "('a, 'w) env \<Rightarrow> ('a, 'e, 'w) flush_fn option \<Rightarrow> ('a, 'e, 'w) config \<Rightarrow> bool" where
  "sink_log_inv e f c \<longleftrightarrow>
     flushFn (shared c) = f \<and>
     sink_calls (outside c) =
       sink_calls e @ (if f = None then [] else map snd (delivered (history c)))"



section \<open>The loader's retry (cmd/loader, insertWithRetry)\<close>

text \<open>
  A \<^verbatim>\<open>time.Duration\<close> is a number of nanoseconds. The loop keeps \<^verbatim>\<open>backoff\<close> between 200 ms
  and 5 s, far from the ends of a 64-bit integer, so an \<open>int\<close> holds it.
\<close>

definition Millisecond :: int where
  "Millisecond = 1000000"

definition Second :: int where
  "Second = 1000 * Millisecond"

definition maxAttempts :: nat where
  "maxAttempts = 5"

text \<open>The errors \<^verbatim>\<open>insertWithRetry\<close> returns: the error of an insert, or \<^verbatim>\<open>ctx.Err()\<close>.\<close>

datatype 'e retry_error = InsertErr 'e | CtxErr

text \<open>
  What the function works on besides its arguments. The database and the context decide
  what happens and are not in the repository: \<open>insert_outcomes\<close> are the results of the
  database work of the coming \<^verbatim>\<open>InsertBatch\<close> calls, the next one at 0, and \<open>done_first\<close>
  says, for the coming selects, whether \<^verbatim>\<open>ctx.Done()\<close> is received rather than the timer.
  The rest is written by the function: the batches \<^verbatim>\<open>InsertBatch\<close> was called with, the
  durations given to \<^verbatim>\<open>time.After\<close>, the counter \<^verbatim>\<open>insertErrors\<close> and the sizes observed by
  \<^verbatim>\<open>batchSizeHistogram\<close> (the elapsed time given to \<^verbatim>\<open>insertDuration\<close> is left out).
\<close>

record ('a, 'e) world =
  insert_outcomes :: "nat \<Rightarrow> 'e option"
  done_first :: "nat \<Rightarrow> bool"
  insert_calls :: "'a list list"
  timers :: "int list"
  insertErrors :: nat
  batchSizeHistogram :: "nat list"

text \<open>\<^verbatim>\<open>Client.InsertBatch\<close>: nil at once for no events, else the transaction, whose result
  the database decides.\<close>

definition InsertBatch :: "'a list \<Rightarrow> ('a, 'e) world \<Rightarrow> 'e option \<times> ('a, 'e) world" where
  "InsertBatch events w =
     (if length events = 0 then (None, w\<lparr>insert_calls := insert_calls w @ [events]\<rparr>)
      else (insert_outcomes w 0,
            w\<lparr>insert_outcomes := (\<lambda>k. insert_outcomes w (Suc k)),
              insert_calls := insert_calls w @ [events]\<rparr>))"

text \<open>The select between \<^verbatim>\<open>ctx.Done()\<close> and \<^verbatim>\<open>time.After(backoff)\<close>: \<open>True\<close> when the context wins.\<close>

definition select_done :: "int \<Rightarrow> ('a, 'e) world \<Rightarrow> bool \<times> ('a, 'e) world" where
  "select_done backoff w =
     (done_first w 0,
      w\<lparr>done_first := (\<lambda>k. done_first w (Suc k)), timers := timers w @ [backoff]\<rparr>)"

text \<open>The for loop of \<^verbatim>\<open>insertWithRetry\<close>, from the values of \<^verbatim>\<open>attempt\<close> and \<^verbatim>\<open>backoff\<close> at the
  loop's test.\<close>

function retry_loop ::
  "nat \<Rightarrow> int \<Rightarrow> 'a list \<Rightarrow> ('a, 'e) world \<Rightarrow> 'e retry_error option \<times> ('a, 'e) world" where
  "retry_loop attempt backoff events w =
     (if attempt \<le> maxAttempts then
        (case InsertBatch events w of
           (None, w1) \<Rightarrow>
             (None, w1\<lparr>batchSizeHistogram := batchSizeHistogram w1 @ [length events]\<rparr>)
         | (Some err, w1) \<Rightarrow>
             (let w2 = w1\<lparr>insertErrors := insertErrors w1 + 1\<rparr> in
              if attempt = maxAttempts then (Some (InsertErr err), w2)
              else (case select_done backoff w2 of
                      (True, w3) \<Rightarrow> (Some CtxErr, w3)
                    | (False, w3) \<Rightarrow>
                        (let backoff2 = backoff * 2;
                             backoff3 = (if backoff2 > 5 * Second then 5 * Second else backoff2)
                         in retry_loop (attempt + 1) backoff3 events w3))))
      else (None, w))"
  by pat_completeness auto
termination
  by (relation "measure (\<lambda>(attempt, backoff, events, w). Suc maxAttempts - attempt)") auto

declare retry_loop.simps [simp del]

definition insertWithRetry ::
  "'a list \<Rightarrow> ('a, 'e) world \<Rightarrow> 'e retry_error option \<times> ('a, 'e) world" where
  "insertWithRetry events w = retry_loop 1 (200 * Millisecond) events w"

text \<open>How the world \<open>w'\<close> differs from \<open>w\<close> after one failed insert of \<open>events\<close> and one
  select with a timer of \<open>d\<close>.\<close>

abbreviation failed_once :: "int \<Rightarrow> 'a list \<Rightarrow> ('a, 'e) world \<Rightarrow> ('a, 'e) world \<Rightarrow> bool" where
  "failed_once d events w w' \<equiv>
     insert_outcomes w' = (\<lambda>k. insert_outcomes w (Suc k)) \<and>
     done_first w' = (\<lambda>k. done_first w (Suc k)) \<and>
     insert_calls w' = insert_calls w @ [events] \<and>
     timers w' = timers w @ [d] \<and>
     insertErrors w' = Suc (insertErrors w) \<and>
     batchSizeHistogram w' = batchSizeHistogram w"

section \<open>The buffer and the batch as slices in memory\<close>

text \<open>
  Whether a batch shares memory with the buffer is not visible in lists, so the critical
  sections are modelled a second time on slices. An array lives at an address of the heap;
  \<open>next_array\<close> is the first address not yet handed out. A slice is an array, a length and a
  capacity (the slices of the batcher all start at index 0 of their array); \<open>None\<close> is the
  nil slice. \<open>zero\<close> is the zero value of the item type, and \<open>grow\<close> gives the capacity the
  runtime chooses when \<^verbatim>\<open>append\<close> has to move a slice of a given capacity, which the
  language leaves open beyond its being enough.
\<close>

record 'a heap =
  arrays :: "nat \<Rightarrow> 'a list"
  next_array :: nat

record slice =
  slice_array :: nat
  slice_len :: nat
  slice_cap :: nat

definition go_len :: "slice option \<Rightarrow> nat" where
  "go_len s = (case s of None \<Rightarrow> 0 | Some sl \<Rightarrow> slice_len sl)"

definition go_cap :: "slice option \<Rightarrow> nat" where
  "go_cap s = (case s of None \<Rightarrow> 0 | Some sl \<Rightarrow> slice_cap sl)"

text \<open>The items a slice shows.\<close>

definition contents :: "'a heap \<Rightarrow> slice option \<Rightarrow> 'a list" where
  "contents h s = (case s of None \<Rightarrow> [] | Some sl \<Rightarrow> take (slice_len sl) (arrays h (slice_array sl)))"

text \<open>\<^verbatim>\<open>append(s, x)\<close>: in place when the capacity allows, else into a new, larger array.\<close>

definition go_append ::
  "(nat \<Rightarrow> nat) \<Rightarrow> 'a \<Rightarrow> 'a heap \<Rightarrow> slice option \<Rightarrow> 'a \<Rightarrow> 'a heap \<times> slice option" where
  "go_append grow zero h s x =
     (if go_len s < go_cap s then
        (h\<lparr>arrays := (arrays h)
             (slice_array (the s) := (arrays h (slice_array (the s)))[go_len s := x])\<rparr>,
         Some ((the s)\<lparr>slice_len := go_len s + 1\<rparr>))
      else
        (let newcap = max (grow (go_cap s)) (go_len s + 1); a = next_array h
         in (h\<lparr>arrays := (arrays h)
                  (a := contents h s @ x # replicate (newcap - (go_len s + 1)) zero),
               next_array := Suc a\<rparr>,
             Some \<lparr>slice_array = a, slice_len = go_len s + 1, slice_cap = newcap\<rparr>)))"

text \<open>\<^verbatim>\<open>make([]T, n)\<close>: a new array of \<open>n\<close> zero values.\<close>

definition go_make :: "'a \<Rightarrow> 'a heap \<Rightarrow> nat \<Rightarrow> 'a heap \<times> slice option" where
  "go_make zero h n =
     (h\<lparr>arrays := (arrays h)(next_array h := replicate n zero), next_array := Suc (next_array h)\<rparr>,
      Some \<lparr>slice_array = next_array h, slice_len = n, slice_cap = n\<rparr>)"

text \<open>\<^verbatim>\<open>copy(dst, src)\<close>: the first \<open>min (len dst) (len src)\<close> items; their number is returned.\<close>

definition go_copy :: "'a heap \<Rightarrow> slice option \<Rightarrow> slice option \<Rightarrow> 'a heap \<times> nat" where
  "go_copy h dst src =
     (case (dst, src) of
        (Some d, Some s) \<Rightarrow>
          (let n = min (slice_len d) (slice_len s)
           in (h\<lparr>arrays := (arrays h)
                    (slice_array d :=
                       take n (arrays h (slice_array s)) @ drop n (arrays h (slice_array d)))\<rparr>,
               n))
      | _ \<Rightarrow> (h, 0))"

text \<open>\<^verbatim>\<open>s[:0]\<close>.\<close>

definition reslice0 :: "slice option \<Rightarrow> slice option" where
  "reslice0 s = map_option (\<lambda>sl. sl\<lparr>slice_len := 0\<rparr>) s"

text \<open>The heap with the two fields of the batcher that the critical sections use.\<close>

record 'a batcher_mem =
  mem :: "'a heap"
  buffer_slice :: "slice option"
  maxSize_mem :: int

text \<open>\<^verbatim>\<open>detach\<close> on slices.\<close>

definition detach_mem :: "'a \<Rightarrow> 'a batcher_mem \<Rightarrow> slice option \<times> 'a batcher_mem" where
  "detach_mem zero m =
     (if go_len (buffer_slice m) = 0 then (None, m)
      else case go_make zero (mem m) (go_len (buffer_slice m)) of
        (h1, batch) \<Rightarrow>
          (case go_copy h1 batch (buffer_slice m) of
             (h2, n) \<Rightarrow> (batch, m\<lparr>mem := h2, buffer_slice := reslice0 (buffer_slice m)\<rparr>)))"

text \<open>The critical section of \<^verbatim>\<open>Add\<close> on slices.\<close>

definition Add_locked_mem ::
  "(nat \<Rightarrow> nat) \<Rightarrow> 'a \<Rightarrow> 'a batcher_mem \<Rightarrow> 'a \<Rightarrow> bool \<times> slice option \<times> 'a batcher_mem" where
  "Add_locked_mem grow zero m item =
     (case go_append grow zero (mem m) (buffer_slice m) item of
        (h1, s1) \<Rightarrow>
          (let m1 = m\<lparr>mem := h1, buffer_slice := s1\<rparr>;
               shouldFlush = (int (go_len (buffer_slice m1)) \<ge> maxSize_mem m1)
           in if shouldFlush then (case detach_mem zero m1 of (batch, m2) \<Rightarrow> (shouldFlush, batch, m2))
              else (shouldFlush, None, m1)))"

text \<open>The code that touches the buffer, in any order: critical sections of \<^verbatim>\<open>Add\<close> and of
  \<^verbatim>\<open>Flush\<close>.\<close>

datatype 'a mem_op = AddOp 'a | FlushOp

fun run_mem :: "(nat \<Rightarrow> nat) \<Rightarrow> 'a \<Rightarrow> 'a mem_op list \<Rightarrow> 'a batcher_mem \<Rightarrow> 'a batcher_mem" where
  "run_mem grow zero [] m = m"
| "run_mem grow zero (AddOp x # ops) m =
     run_mem grow zero ops (snd (snd (Add_locked_mem grow zero m x)))"
| "run_mem grow zero (FlushOp # ops) m = run_mem grow zero ops (snd (detach_mem zero m))"

text \<open>A slice is well formed in a heap: its array has been handed out and has the slice's
  capacity as its length, and the slice's length is within the capacity.\<close>

definition wf_slice :: "'a heap \<Rightarrow> slice option \<Rightarrow> bool" where
  "wf_slice h s =
     (case s of
        None \<Rightarrow> True
      | Some sl \<Rightarrow>
          slice_array sl < next_array h \<and> slice_len sl \<le> slice_cap sl \<and>
          length (arrays h (slice_array sl)) = slice_cap sl)"

text \<open>The batch \<open>bs\<close> is out of the buffer's reach: its array has been handed out and is not
  the buffer's.\<close>

definition apart :: "'a batcher_mem \<Rightarrow> slice \<Rightarrow> bool" where
  "apart m bs =
     (wf_slice (mem m) (buffer_slice m) \<and> slice_array bs < next_array (mem m) \<and>
      (case buffer_slice m of None \<Rightarrow> True | Some sl \<Rightarrow> slice_array sl \<noteq> slice_array bs))"

section \<open>Sinks and states used in the examples\<close>

text \<open>A sink that fails every call and one that accepts every call; each counts its calls.\<close>

definition failing_sink :: "(int, string, nat) flush_fn" where
  "failing_sink xs w = (Some ''down'', Suc w)"

definition accepting_sink :: "(int, string, nat) flush_fn" where
  "accepting_sink xs w = (None, Suc w)"

definition env0 :: "(int, nat) env" where
  "env0 = \<lparr>sink_state = 0, sink_calls = []\<rparr>"

text \<open>A database that fails every insert, the \<open>k\<close>-th coming one with the error \<open>k\<close>, and a
  context that is done during the wait numbered \<open>cancel_at\<close> (never, when that is \<open>None\<close>).\<close>

definition failing_world :: "nat option \<Rightarrow> (int, nat) world" where
  "failing_world cancel_at =
     \<lparr>insert_outcomes = (\<lambda>k. Some k), done_first = (\<lambda>k. cancel_at = Some k),
      insert_calls = [], timers = [], insertErrors = 0, batchSizeHistogram = []\<rparr>"

text \<open>A memory whose buffer holds 1 and 2 in an array of capacity 4 at address 0.\<close>

definition mem0 :: "int batcher_mem" where
  "mem0 =
     \<lparr>mem = \<lparr>arrays = (\<lambda>a. [])(0 := [1, 2, 0, 0]), next_array = 1\<rparr>,
      buffer_slice = Some \<lparr>slice_array = 0, slice_len = 2, slice_cap = 4\<rparr>,
      maxSize_mem = 5\<rparr>"

section \<open>Properties of the batcher\<close>

lemma detach_empty: "buffer b = [] \<Longrightarrow> detach b = (None, b)"
  by (simp add: detach_def)

lemma detach_nonempty: "buffer b \<noteq> [] \<Longrightarrow> detach b = (Some (buffer b), b\<lparr>buffer := []\<rparr>)"
  by (simp add: detach_def)

lemma runFlush_nil: "runFlush b None e = (None, e)"
  by (simp add: runFlush_def len_def)

lemma Add_lastError: "lastError (fst (snd (Add b x e))) = lastError b"
  by (simp add: Add_def Add_locked_def detach_def Let_def split: prod.splits)

lemma Flush_lastError: "lastError (fst (snd (Flush b e))) = lastError b"
  by (simp add: Flush_def detach_def split: prod.splits)

lemma detach_lastError: "detach b = (batch, b') \<Longrightarrow> lastError b' = lastError b"
  by (auto simp: detach_def split: if_splits)

lemma Add_locked_lastError: "Add_locked b x = (sf, batch, b') \<Longrightarrow> lastError b' = lastError b"
  by (auto simp: Add_locked_def Let_def detach_def split: if_splits)

lemma step_lastError:
  assumes "step a c = Some c'" and "a \<noteq> LoopStoresError"
  shows "lastError (shared c') = lastError (shared c)"
proof (cases a)
  case (EnterAdd t x)
  with assms show ?thesis
    by (auto split: if_splits prod.splits dest: Add_locked_lastError)
next
  case (EnterFlush t)
  with assms show ?thesis
    by (auto split: if_splits prod.splits dest: detach_lastError)
next
  case LoopTick
  with assms show ?thesis
    by (auto split: loop_pc.splits prod.splits dest: detach_lastError)
next
  case CloseEntersFlush
  with assms show ?thesis
    by (auto split: close_pc.splits prod.splits dest: detach_lastError)
qed (use assms in \<open>auto split: if_splits prod.splits call_pc.splits loop_pc.splits close_pc.splits\<close>)

section \<open>The claims\<close>

text \<open>
  C10. The field \<open>lastError\<close> is written by the loop goroutine only. \<^verbatim>\<open>Add\<close> and \<^verbatim>\<open>Flush\<close>, run
  whole, leave it as it was, whatever the flush function returns; in an interleaving, every
  step but the loop's store leaves it as it was; and the step in which a caller runs
  \<^verbatim>\<open>runFlush\<close> hands the error to that caller alone: no other caller, nor the loop, nor
  \<^verbatim>\<open>Close\<close> moves.
\<close>

theorem lastError_written_only_by_loop:
  "lastError (fst (snd (Add b x e))) = lastError b \<and>
   lastError (fst (snd (Flush b e))) = lastError b \<and>
   (step a c = Some c' \<and> a \<noteq> LoopStoresError \<longrightarrow> lastError (shared c') = lastError (shared c)) \<and>
   (step (CallerRunFlush t) c = Some c' \<longrightarrow>
      (\<exists>batch. call_at c t = CallRunFlush batch \<and>
         call_at c' t = CallReturned (fst (runFlush (shared c) batch (outside c)))) \<and>
      (\<forall>u. u \<noteq> t \<longrightarrow> call_at c' u = call_at c u) \<and> loop_at c' = loop_at c \<and> close_at c' = close_at c)"
proof (intro conjI impI)
  show "lastError (fst (snd (Add b x e))) = lastError b" by (rule Add_lastError)
  show "lastError (fst (snd (Flush b e))) = lastError b" by (rule Flush_lastError)
next
  assume "step a c = Some c' \<and> a \<noteq> LoopStoresError"
  then show "lastError (shared c') = lastError (shared c)" using step_lastError by blast
next
  assume s: "step (CallerRunFlush t) c = Some c'"
  then show "\<exists>batch. call_at c t = CallRunFlush batch \<and>
         call_at c' t = CallReturned (fst (runFlush (shared c) batch (outside c)))"
    by (auto split: call_pc.splits prod.splits)
  from s show "\<forall>u. u \<noteq> t \<longrightarrow> call_at c' u = call_at c u"
    by (auto split: call_pc.splits prod.splits)
  from s show "loop_at c' = loop_at c"
    by (auto split: call_pc.splits prod.splits)
  from s show "close_at c' = close_at c"
    by (auto split: call_pc.splits prod.splits)
qed

text \<open>
  The threshold is 1 and the sink fails: the caller that added 7 runs the flush, gets the
  sink's error back, and \<open>lastError\<close> is still nil.
\<close>

theorem lastError_written_only_by_loop_witness:
  "step (CallerRunFlush 0) (the (run [EnterAdd 0 7] (start 1 1000 (Some failing_sink) env0)))
     = run [EnterAdd 0 7, CallerRunFlush 0] (start 1 1000 (Some failing_sink) env0) \<and>
   run [EnterAdd 0 7, CallerRunFlush 0] (start 1 1000 (Some failing_sink) env0) \<noteq> None \<and>
   CallerRunFlush 0 \<noteq> (LoopStoresError :: int action) \<and>
   lastError (shared (the (run [EnterAdd 0 7, CallerRunFlush 0] (start 1 1000 (Some failing_sink) env0))))
     = None \<and>
   call_at (the (run [EnterAdd 0 7, CallerRunFlush 0] (start 1 1000 (Some failing_sink) env0))) 0
     = CallReturned (Some (ErrSink ''down''))"
  using lastError_written_only_by_loop
    [of "New 1 1000 (Some failing_sink)" 7 env0 "CallerRunFlush 0"
        "the (run [EnterAdd 0 7] (start 1 1000 (Some failing_sink) env0))"
        "the (run [EnterAdd 0 7, CallerRunFlush 0] (start 1 1000 (Some failing_sink) env0))" 0]
  by (simp add: start_def New_def env0_def failing_sink_def Add_locked_def detach_def
      runFlush_def len_def in_call_def Let_def)

lemma Flush_empty: "buffer b = [] \<Longrightarrow> Flush b e = (None, b, e)"
  by (simp add: Flush_def detach_def runFlush_def len_def)

lemma tick_empty: "buffer b = [] \<Longrightarrow> tick b e = (b, e)"
  by (simp add: tick_def Flush_empty)

lemma Flush_no_sink:
  "flushFn b = None \<Longrightarrow>
   Flush b e = ((if buffer b = [] then None else Some ErrNoFlushFn), b\<lparr>buffer := []\<rparr>, e)"
  by (simp add: Flush_def detach_def runFlush_def len_def)

lemma Add_no_sink:
  "flushFn b = None \<Longrightarrow> maxSize b \<le> int (length (buffer b)) + 1 \<Longrightarrow>
   Add b x e = (Some ErrNoFlushFn, b\<lparr>buffer := []\<rparr>, e)"
  by (simp add: Add_def Add_locked_def Let_def detach_def runFlush_def len_def)

text \<open>
  C6, as the code has it. With no flush function, a flush of a buffer that holds items
  returns the configuration error at once: the sink's state and the list of its calls are
  as before, and the items are gone from the buffer. That holds for \<^verbatim>\<open>Flush\<close>, for an \<^verbatim>\<open>Add\<close>
  that reaches the threshold, and for the loop's turn, which stores the error. A flush of an
  empty buffer returns nil: \<^verbatim>\<open>runFlush\<close> tests the length of the batch before it tests the
  flush function.
\<close>

theorem no_sink_flush:
  assumes "flushFn b = None"
  shows "Flush b e = ((if buffer b = [] then None else Some ErrNoFlushFn), b\<lparr>buffer := []\<rparr>, e) \<and>
     (maxSize b \<le> int (length (buffer b)) + 1 \<longrightarrow>
        Add b x e = (Some ErrNoFlushFn, b\<lparr>buffer := []\<rparr>, e)) \<and>
     tick b e =
       (if buffer b = [] then b else b\<lparr>buffer := [], lastError := Some ErrNoFlushFn\<rparr>, e)"
  using assms by (simp add: Flush_no_sink Add_no_sink tick_def)

theorem no_sink_flush_witness:
  "Flush ((New 3 1000 None)\<lparr>buffer := [4, 5 :: int]\<rparr> :: (int, string, nat) batcher) env0 =
     (Some ErrNoFlushFn, New 3 1000 None, env0) \<and>
   Add ((New 3 1000 None)\<lparr>buffer := [4, 5 :: int]\<rparr> :: (int, string, nat) batcher) 6 env0 =
     (Some ErrNoFlushFn, New 3 1000 None, env0)"
  using no_sink_flush[of "(New 3 1000 None)\<lparr>buffer := [4, 5 :: int]\<rparr> :: (int, string, nat) batcher" env0 6]
  by (simp add: New_def)

text \<open>The claim as it is written fails on a new batcher with no flush function: its buffer
  is empty, and \<^verbatim>\<open>Flush\<close> returns nil, not the configuration error.\<close>

theorem no_sink_empty_flush_returns_nil:
  "fst (Flush (New 3 1000 None :: (int, string, nat) batcher) env0) = None \<and>
   flushFn (New 3 1000 None :: (int, string, nat) batcher) = None"
  by (simp add: Flush_def detach_def runFlush_def len_def New_def)

text \<open>
  C7. On an empty buffer \<^verbatim>\<open>detach\<close> gives nil and changes nothing, and \<^verbatim>\<open>runFlush\<close> on nil
  returns nil without a call of the flush function, whether there is one or not. So a
  \<^verbatim>\<open>Flush\<close> and a turn of the loop, run whole, change neither the batcher nor the sink; and
  in an interleaving, a caller, the loop or \<^verbatim>\<open>Close\<close> that detached nil runs \<^verbatim>\<open>runFlush\<close>,
  at whatever later moment, with nil returned, the sink and the batcher untouched.
\<close>

theorem empty_flush_is_noop:
  "(buffer b = [] \<longrightarrow>
      detach b = (None, b) \<and> Flush b e = (None, b, e) \<and> tick b e = (b, e)) \<and>
   runFlush b None e = (None, e) \<and>
   (buffer (shared c) = [] \<and> \<not> in_call (call_at c t) \<longrightarrow>
      (\<exists>c'. step (EnterFlush t) c = Some c' \<and> call_at c' t = CallRunFlush None \<and>
         shared c' = shared c \<and> outside c' = outside c)) \<and>
   (buffer (shared c) = [] \<and> loop_at c = LoopSelect \<longrightarrow>
      (\<exists>c'. step LoopTick c = Some c' \<and> loop_at c' = LoopRunFlush None \<and>
         shared c' = shared c \<and> outside c' = outside c)) \<and>
   (buffer (shared c) = [] \<and> close_at c = CloseFlush \<longrightarrow>
      (\<exists>c'. step CloseEntersFlush c = Some c' \<and> close_at c' = CloseRunFlush None \<and>
         shared c' = shared c \<and> outside c' = outside c)) \<and>
   (call_at c t = CallRunFlush None \<longrightarrow>
      (\<exists>c'. step (CallerRunFlush t) c = Some c' \<and> call_at c' t = CallReturned None \<and>
         shared c' = shared c \<and> outside c' = outside c)) \<and>
   (loop_at c = LoopRunFlush None \<longrightarrow>
      (\<exists>c'. step LoopRunsFlush c = Some c' \<and> loop_at c' = LoopSelect \<and>
         shared c' = shared c \<and> outside c' = outside c)) \<and>
   (close_at c = CloseRunFlush None \<longrightarrow>
      (\<exists>c'. step CloseRunsFlush c = Some c' \<and> close_at c' = CloseReturned None \<and>
         shared c' = shared c \<and> outside c' = outside c))"
proof (intro conjI impI)
  assume "buffer b = []"
  then show "detach b = (None, b)" by (rule detach_empty)
next
  assume "buffer b = []"
  then show "Flush b e = (None, b, e)" by (rule Flush_empty)
next
  assume "buffer b = []"
  then show "tick b e = (b, e)" by (rule tick_empty)
next
  show "runFlush b None e = (None, e)" by (rule runFlush_nil)
next
  assume "buffer (shared c) = [] \<and> \<not> in_call (call_at c t)"
  then show "\<exists>c'. step (EnterFlush t) c = Some c' \<and> call_at c' t = CallRunFlush None \<and>
         shared c' = shared c \<and> outside c' = outside c"
    by (simp add: detach_empty)
next
  assume "buffer (shared c) = [] \<and> loop_at c = LoopSelect"
  then show "\<exists>c'. step LoopTick c = Some c' \<and> loop_at c' = LoopRunFlush None \<and>
         shared c' = shared c \<and> outside c' = outside c"
    by (simp add: detach_empty)
next
  assume "buffer (shared c) = [] \<and> close_at c = CloseFlush"
  then show "\<exists>c'. step CloseEntersFlush c = Some c' \<and> close_at c' = CloseRunFlush None \<and>
         shared c' = shared c \<and> outside c' = outside c"
    by (simp add: detach_empty)
next
  assume "call_at c t = CallRunFlush None"
  then show "\<exists>c'. step (CallerRunFlush t) c = Some c' \<and> call_at c' t = CallReturned None \<and>
         shared c' = shared c \<and> outside c' = outside c"
    by (simp add: runFlush_nil)
next
  assume "loop_at c = LoopRunFlush None"
  then show "\<exists>c'. step LoopRunsFlush c = Some c' \<and> loop_at c' = LoopSelect \<and>
         shared c' = shared c \<and> outside c' = outside c"
    by (simp add: runFlush_nil)
next
  assume "close_at c = CloseRunFlush None"
  then show "\<exists>c'. step CloseRunsFlush c = Some c' \<and> close_at c' = CloseReturned None \<and>
         shared c' = shared c \<and> outside c' = outside c"
    by (simp add: runFlush_nil)
qed

text \<open>A new batcher with a sink that would fail: flushes of its empty buffer by a caller and
  by the loop return nil and leave the sink without a call.\<close>

theorem empty_flush_is_noop_witness:
  "Flush (New 3 1000 (Some failing_sink)) env0 = (None, New 3 1000 (Some failing_sink), env0) \<and>
   tick (New 3 1000 (Some failing_sink)) env0 = (New 3 1000 (Some failing_sink), env0) \<and>
   map_option outside
     (run [EnterFlush 0, LoopTick, CallerRunFlush 0, LoopRunsFlush]
        (start 3 1000 (Some failing_sink) env0)) = Some env0 \<and>
   map_option (\<lambda>c. call_at c 0)
     (run [EnterFlush 0, LoopTick, CallerRunFlush 0, LoopRunsFlush]
        (start 3 1000 (Some failing_sink) env0)) = Some (CallReturned None)"
  using empty_flush_is_noop
    [of "New 3 1000 (Some failing_sink)" env0 "start 3 1000 (Some failing_sink) env0" 0]
  by (simp add: start_def New_def detach_def runFlush_def len_def in_call_def)







lemma retry_loop_last:
  assumes "events \<noteq> []" and "insert_outcomes w 0 = Some err"
  shows "retry_loop 5 backoff events w =
     (Some (InsertErr err),
      w\<lparr>insert_outcomes := (\<lambda>k. insert_outcomes w (Suc k)),
        insert_calls := insert_calls w @ [events],
        insertErrors := insertErrors w + 1\<rparr>)"
  using assms by (subst retry_loop.simps) (simp add: InsertBatch_def maxAttempts_def)

lemma retry_loop_again_eq:
  assumes "attempt < 5" and "events \<noteq> []" and "insert_outcomes w 0 = Some err"
    and "\<not> done_first w 0"
  shows "retry_loop attempt backoff events w =
     retry_loop (Suc attempt) (if backoff * 2 > 5 * Second then 5 * Second else backoff * 2) events
       (w\<lparr>insert_outcomes := (\<lambda>k. insert_outcomes w (Suc k)),
          insert_calls := insert_calls w @ [events],
          insertErrors := insertErrors w + 1,
          done_first := (\<lambda>k. done_first w (Suc k)),
          timers := timers w @ [backoff]\<rparr>)"
  using assms
  by (subst retry_loop.simps) (simp add: InsertBatch_def select_done_def maxAttempts_def Let_def)

lemma retry_loop_again:
  assumes "attempt < 5" and "events \<noteq> []" and "insert_outcomes w 0 = Some err"
    and "\<not> done_first w 0"
  shows "\<exists>w'. failed_once backoff events w w' \<and>
     retry_loop attempt backoff events w =
     retry_loop (Suc attempt) (if backoff * 2 > 5 * Second then 5 * Second else backoff * 2) events w'"
  by (rule exI, rule conjI[OF _ retry_loop_again_eq[OF assms]]) simp

lemma retry_loop_cancel_eq:
  assumes "attempt < 5" and "events \<noteq> []" and "insert_outcomes w 0 = Some err"
    and "done_first w 0"
  shows "retry_loop attempt backoff events w =
     (Some CtxErr,
       w\<lparr>insert_outcomes := (\<lambda>k. insert_outcomes w (Suc k)),
          insert_calls := insert_calls w @ [events],
          insertErrors := insertErrors w + 1,
          done_first := (\<lambda>k. done_first w (Suc k)),
          timers := timers w @ [backoff]\<rparr>)"
  using assms
  by (subst retry_loop.simps) (simp add: InsertBatch_def select_done_def maxAttempts_def Let_def)

lemma retry_loop_cancel:
  assumes "attempt < 5" and "events \<noteq> []" and "insert_outcomes w 0 = Some err"
    and "done_first w 0"
  shows "\<exists>w'. failed_once backoff events w w' \<and>
     retry_loop attempt backoff events w = (Some CtxErr, w')"
  by (rule exI, rule conjI[OF _ retry_loop_cancel_eq[OF assms]]) simp

lemma retry_loop_skip:
  assumes "events \<noteq> []"
  shows "a + n \<le> 5 \<Longrightarrow> \<forall>k<n. insert_outcomes w k \<noteq> None \<and> \<not> done_first w k \<Longrightarrow>
    \<exists>w' b'. retry_loop a b events w = retry_loop (a + n) b' events w' \<and>
      insert_outcomes w' = (\<lambda>k. insert_outcomes w (k + n)) \<and>
      done_first w' = (\<lambda>k. done_first w (k + n)) \<and>
      insert_calls w' = insert_calls w @ replicate n events \<and>
      length (timers w') = length (timers w) + n \<and>
      insertErrors w' = insertErrors w + n"
proof (induction n arbitrary: a b w)
  case 0
  show ?case by (rule exI[of _ w], rule exI[of _ b]) simp
next
  case (Suc n)
  let ?b1 = "if b * 2 > 5 * Second then 5 * Second else b * 2"
  from Suc.prems(2) obtain err where err: "insert_outcomes w 0 = Some err" and nd: "\<not> done_first w 0"
    by auto
  from Suc.prems(1) have lt: "a < 5" by simp
  from retry_loop_again[OF lt assms err nd, of b] obtain w1 where
    w1: "failed_once b events w w1" and
    s1: "retry_loop a b events w = retry_loop (Suc a) ?b1 events w1"
    by blast
  have p1: "Suc a + n \<le> 5" using Suc.prems(1) by simp
  have p2: "\<forall>k<n. insert_outcomes w1 k \<noteq> None \<and> \<not> done_first w1 k"
    using Suc.prems(2) w1 by simp
  from Suc.IH[OF p1 p2, of ?b1] obtain w' b' where
    r: "retry_loop (Suc a) ?b1 events w1 = retry_loop (Suc a + n) b' events w'"
    and o: "insert_outcomes w' = (\<lambda>k. insert_outcomes w1 (k + n))"
    and d: "done_first w' = (\<lambda>k. done_first w1 (k + n))"
    and c: "insert_calls w' = insert_calls w1 @ replicate n events"
    and t: "length (timers w') = length (timers w1) + n"
    and i: "insertErrors w' = insertErrors w1 + n"
    by blast
  have "retry_loop a b events w = retry_loop (a + Suc n) b' events w'"
    using s1 r by simp
  moreover have "insert_outcomes w' = (\<lambda>k. insert_outcomes w (k + Suc n))"
    using o w1 by simp
  moreover have "done_first w' = (\<lambda>k. done_first w (k + Suc n))"
    using d w1 by simp
  moreover have "insert_calls w' = insert_calls w @ replicate (Suc n) events"
    using c w1 by (simp add: replicate_append_same)
  moreover have "length (timers w') = length (timers w) + Suc n"
    using t w1 by simp
  moreover have "insertErrors w' = insertErrors w + Suc n"
    using i w1 by simp
  ultimately show ?case by blast
qed

lemma retry_loop_bounds:
  "retry_loop attempt backoff events w = (r, w') \<Longrightarrow> attempt \<le> 5 \<Longrightarrow>
   0 < backoff \<Longrightarrow> backoff \<le> 5 * Second \<Longrightarrow>
     \<exists>n ts. insert_calls w' = insert_calls w @ replicate n events \<and> attempt + n \<le> 6 \<and>
        timers w' = timers w @ ts \<and> (\<forall>d\<in>set ts. 0 < d \<and> d \<le> 5 * Second)"
proof (induction attempt backoff events w arbitrary: r w' rule: retry_loop.induct)
  case (1 attempt backoff events w)
  have le: "attempt \<le> maxAttempts" using "1.prems"(2) by (simp add: maxAttempts_def)
  obtain x w1 where ib: "InsertBatch events w = (x, w1)" by (cases "InsertBatch events w")
  have c1: "insert_calls w1 = insert_calls w @ [events]" and t1: "timers w1 = timers w"
    using ib by (auto simp: InsertBatch_def split: if_splits)
  show ?case
  proof (cases x)
    case None
    with "1.prems"(1) le ib have "w' = w1\<lparr>batchSizeHistogram := batchSizeHistogram w1 @ [length events]\<rparr>"
      by (subst (asm) retry_loop.simps) simp
    with c1 t1 have "insert_calls w' = insert_calls w @ replicate 1 events" "timers w' = timers w @ []"
      by simp_all
    with "1.prems"(2) show ?thesis by (intro exI[of _ 1] exI[of _ "[]"]) simp
  next
    case (Some err)
    define w2 where "w2 = w1\<lparr>insertErrors := insertErrors w1 + 1\<rparr>"
    show ?thesis
    proof (cases "attempt = maxAttempts")
      case True
      with "1.prems"(1) le ib Some have "w' = w2"
        by (subst (asm) retry_loop.simps) (simp add: w2_def)
      with c1 t1 have "insert_calls w' = insert_calls w @ replicate 1 events" "timers w' = timers w @ []"
        by (simp_all add: w2_def)
      with "1.prems"(2) show ?thesis by (intro exI[of _ 1] exI[of _ "[]"]) simp
    next
      case False
      obtain dn w3 where sd: "select_done backoff w2 = (dn, w3)" by (cases "select_done backoff w2")
      have c3: "insert_calls w3 = insert_calls w @ [events]" and t3: "timers w3 = timers w @ [backoff]"
        using sd c1 t1 by (auto simp: select_done_def w2_def)
      show ?thesis
      proof (cases dn)
        case True
        with "1.prems"(1) le ib Some False sd have "w' = w3"
          by (subst (asm) retry_loop.simps) (simp add: w2_def)
        with c3 t3 have "insert_calls w' = insert_calls w @ replicate 1 events" "timers w' = timers w @ [backoff]"
          by simp_all
        with "1.prems" show ?thesis by (intro exI[of _ 1] exI[of _ "[backoff]"]) simp
      next
        case dnF: False
        define b3 where "b3 = (if backoff * 2 > 5 * Second then 5 * Second else backoff * 2)"
        have rec: "retry_loop (attempt + 1) b3 events w3 = (r, w')"
          using "1.prems"(1) le ib Some False sd dnF
          by (subst (asm) retry_loop.simps) (simp add: w2_def b3_def Let_def)
        have b3: "0 < b3" "b3 \<le> 5 * Second" using "1.prems"(3,4) by (auto simp: b3_def)
        have a5: "attempt + 1 \<le> 5" using False "1.prems"(2) by (simp add: maxAttempts_def)
        have dnF': "dn = False" using dnF by simp
        have b3': "b3 = (if 5 * Second < backoff * 2 then 5 * Second else backoff * 2)"
          by (simp add: b3_def)
        from "1.IH"[OF le ib[symmetric] Some w2_def False sd[symmetric] dnF' refl b3' rec a5 b3]
        obtain n ts where
          n: "insert_calls w' = insert_calls w3 @ replicate n events" "attempt + 1 + n \<le> 6"
            "timers w' = timers w3 @ ts" "\<forall>d\<in>set ts. 0 < d \<and> d \<le> 5 * Second"
          by blast
        have "insert_calls w' = insert_calls w @ replicate (Suc n) events"
          using n(1) c3 by (simp add: replicate_append_same)
        moreover have "attempt + Suc n \<le> 6" using n(2) by simp
        moreover have "timers w' = timers w @ (backoff # ts)" using n(3) t3 by simp
        moreover have "\<forall>d\<in>set (backoff # ts). 0 < d \<and> d \<le> 5 * Second"
          using n(4) "1.prems"(3,4) by simp
        ultimately show ?thesis by blast
      qed
    qed
  qed
qed

lemma insertWithRetry_bounds:
  "\<exists>n ts. insert_calls (snd (insertWithRetry events w)) = insert_calls w @ replicate n events \<and>
     n \<le> 5 \<and> timers (snd (insertWithRetry events w)) = timers w @ ts \<and>
     (\<forall>d\<in>set ts. 0 < d \<and> d \<le> 5 * Second)"
proof -
  obtain r w' where rw: "retry_loop 1 (200 * Millisecond) events w = (r, w')"
    by (cases "retry_loop 1 (200 * Millisecond) events w")
  from retry_loop_bounds[OF rw] obtain n ts where
    "insert_calls w' = insert_calls w @ replicate n events" "1 + n \<le> 6"
    "timers w' = timers w @ ts" "\<forall>d\<in>set ts. 0 < d \<and> d \<le> 5 * Second"
    by (auto simp: Millisecond_def Second_def)
  then show ?thesis
    unfolding insertWithRetry_def rw by (intro exI[of _ n] exI[of _ ts]) simp
qed

lemma insertWithRetry_exhausted:
  fixes w :: "('a, 'e) world"
  assumes ev: "events \<noteq> []"
    and fail: "\<forall>k<5. insert_outcomes w k \<noteq> None"
    and go: "\<forall>k<4. \<not> done_first w k"
  shows "fst (insertWithRetry events w) = map_option InsertErr (insert_outcomes w 4) \<and>
     insert_calls (snd (insertWithRetry events w)) = insert_calls w @ replicate 5 events \<and>
     timers (snd (insertWithRetry events w)) =
       timers w @ [200 * Millisecond, 400 * Millisecond, 800 * Millisecond, 1600 * Millisecond] \<and>
     insertErrors (snd (insertWithRetry events w)) = insertErrors w + 5"
proof -
  from fail have "insert_outcomes w 0 \<noteq> None" "insert_outcomes w 1 \<noteq> None"
    "insert_outcomes w 2 \<noteq> None" "insert_outcomes w 3 \<noteq> None" "insert_outcomes w 4 \<noteq> None"
    by simp_all
  then obtain e0 e1 e2 e3 e4 where
    e: "insert_outcomes w 0 = Some e0" "insert_outcomes w (Suc 0) = Some e1"
       "insert_outcomes w (Suc (Suc 0)) = Some e2" "insert_outcomes w (Suc (Suc (Suc 0))) = Some e3"
       "insert_outcomes w (Suc (Suc (Suc (Suc 0)))) = Some e4"
    by (auto simp: eval_nat_numeral)
  from go have g: "\<not> done_first w 0" "\<not> done_first w (Suc 0)" "\<not> done_first w (Suc (Suc 0))"
    "\<not> done_first w (Suc (Suc (Suc 0)))"
    by (simp_all add: eval_nat_numeral)
  obtain w1 where w1: "failed_once (200 * Millisecond) events w w1"
    and a1: "retry_loop 1 (200 * Millisecond) events w = retry_loop 2 (400 * Millisecond) events w1"
    using retry_loop_again[of 1 events w e0 "200 * Millisecond"] ev e(1) g(1)
    by (auto simp: Millisecond_def Second_def eval_nat_numeral)
  obtain w2 where w2: "failed_once (400 * Millisecond) events w1 w2"
    and a2: "retry_loop 2 (400 * Millisecond) events w1 = retry_loop 3 (800 * Millisecond) events w2"
    using retry_loop_again[of 2 events w1 e1 "400 * Millisecond"] ev e(2) g(2) w1
    by (auto simp: Millisecond_def Second_def eval_nat_numeral)
  obtain w3 where w3: "failed_once (800 * Millisecond) events w2 w3"
    and a3: "retry_loop 3 (800 * Millisecond) events w2 = retry_loop 4 (1600 * Millisecond) events w3"
    using retry_loop_again[of 3 events w2 e2 "800 * Millisecond"] ev e(3) g(3) w1 w2
    by (auto simp: Millisecond_def Second_def eval_nat_numeral)
  obtain w4 where w4: "failed_once (1600 * Millisecond) events w3 w4"
    and a4: "retry_loop 4 (1600 * Millisecond) events w3 = retry_loop 5 (3200 * Millisecond) events w4"
    using retry_loop_again[of 4 events w3 e3 "1600 * Millisecond"] ev e(4) g(4) w1 w2 w3
    by (auto simp: Millisecond_def Second_def eval_nat_numeral)
  have o4: "insert_outcomes w4 0 = Some e4"
    using w1 w2 w3 w4 e(5) by simp
  have a5: "retry_loop 5 (3200 * Millisecond) events w4 =
      (Some (InsertErr e4),
       w4\<lparr>insert_outcomes := (\<lambda>k. insert_outcomes w4 (Suc k)),
          insert_calls := insert_calls w4 @ [events],
          insertErrors := insertErrors w4 + 1\<rparr>)"
    using retry_loop_last[of events w4 e4 "3200 * Millisecond"] ev o4 by simp
  have r: "insertWithRetry events w = (Some (InsertErr e4),
       w4\<lparr>insert_outcomes := (\<lambda>k. insert_outcomes w4 (Suc k)),
          insert_calls := insert_calls w4 @ [events],
          insertErrors := insertErrors w4 + 1\<rparr>)"
    unfolding insertWithRetry_def using a1 a2 a3 a4 a5 by simp
  show ?thesis
    unfolding r using w1 w2 w3 w4 e(5) by (simp add: eval_nat_numeral)
qed

text \<open>
  C4. \<^verbatim>\<open>insertWithRetry\<close> on a batch that is not empty, when the five coming inserts fail and
  no wait is ended by the context: the result is the error of the fifth insert, wrapped in
  nothing; \<^verbatim>\<open>InsertBatch\<close> has been called five times; the waits were of 200, 400, 800 and
  1600 ms, each the double of the one before; the counter of errors has gone up by five.
  And whatever the database and the context do, a call makes at most five inserts and
  every wait is positive and at most 5 s.
\<close>

theorem retry_exhaustion:
  fixes w v :: "('a, 'e) world"
  shows "(events \<noteq> [] \<and> (\<forall>k<5. insert_outcomes w k \<noteq> None) \<and> (\<forall>k<4. \<not> done_first w k) \<longrightarrow>
     fst (insertWithRetry events w) = map_option InsertErr (insert_outcomes w 4) \<and>
     insert_outcomes w 4 \<noteq> None \<and>
     insert_calls (snd (insertWithRetry events w)) = insert_calls w @ replicate 5 events \<and>
     timers (snd (insertWithRetry events w)) =
       timers w @ [200 * Millisecond, 400 * Millisecond, 800 * Millisecond, 1600 * Millisecond] \<and>
     insertErrors (snd (insertWithRetry events w)) = insertErrors w + 5) \<and>
   (\<exists>n ts. insert_calls (snd (insertWithRetry batch v)) = insert_calls v @ replicate n batch \<and>
     n \<le> 5 \<and> timers (snd (insertWithRetry batch v)) = timers v @ ts \<and>
     (\<forall>d\<in>set ts. 0 < d \<and> d \<le> 5 * Second))"
proof (intro conjI impI)
  assume a: "events \<noteq> [] \<and> (\<forall>k<5. insert_outcomes w k \<noteq> None) \<and> (\<forall>k<4. \<not> done_first w k)"
  then show "fst (insertWithRetry events w) = map_option InsertErr (insert_outcomes w 4)"
    and "insert_calls (snd (insertWithRetry events w)) = insert_calls w @ replicate 5 events"
    and "timers (snd (insertWithRetry events w)) =
       timers w @ [200 * Millisecond, 400 * Millisecond, 800 * Millisecond, 1600 * Millisecond]"
    and "insertErrors (snd (insertWithRetry events w)) = insertErrors w + 5"
    using insertWithRetry_exhausted[of events w] by simp_all
  from a show "insert_outcomes w 4 \<noteq> None" by simp
next
  show "\<exists>n ts. insert_calls (snd (insertWithRetry batch v)) = insert_calls v @ replicate n batch \<and>
     n \<le> 5 \<and> timers (snd (insertWithRetry batch v)) = timers v @ ts \<and>
     (\<forall>d\<in>set ts. 0 < d \<and> d \<le> 5 * Second)"
    by (rule insertWithRetry_bounds)
qed

text \<open>The inserts fail with the errors 0, 1, 2, ... in turn and the context is never done:
  the result is the error 4, that of the fifth insert.\<close>

theorem retry_exhaustion_witness:
  "fst (insertWithRetry [7] (failing_world None)) = Some (InsertErr 4) \<and>
   insert_calls (snd (insertWithRetry [7] (failing_world None))) = [[7], [7], [7], [7], [7]] \<and>
   timers (snd (insertWithRetry [7] (failing_world None))) =
     [200000000, 400000000, 800000000, 1600000000] \<and>
   insertErrors (snd (insertWithRetry [7] (failing_world None))) = 5"
  using retry_exhaustion[of "[7]" "failing_world None" "[7]" "failing_world None"]
  by (simp add: failing_world_def Millisecond_def eval_nat_numeral)

text \<open>
  C5. \<^verbatim>\<open>insertWithRetry\<close> on a batch that is not empty, when the first \<open>n + 1\<close> inserts fail
  (\<open>n + 1\<close> at most 4), the waits before are ended by their timers and the context is done
  during the wait after insert \<open>n + 1\<close>: the result is \<^verbatim>\<open>ctx.Err()\<close>, not the error of an
  insert, and \<^verbatim>\<open>InsertBatch\<close> has been called \<open>n + 1\<close> times and no more.
\<close>

theorem retry_cancelled:
  fixes w :: "('a, 'e) world"
  assumes ev: "events \<noteq> []" and n: "n < 4"
    and fail: "\<forall>k\<le>n. insert_outcomes w k \<noteq> None"
    and go: "\<forall>k<n. \<not> done_first w k"
    and stop: "done_first w n"
  shows "fst (insertWithRetry events w) = Some CtxErr \<and>
     insert_calls (snd (insertWithRetry events w)) = insert_calls w @ replicate (Suc n) events \<and>
     length (timers (snd (insertWithRetry events w))) = length (timers w) + Suc n \<and>
     insertErrors (snd (insertWithRetry events w)) = insertErrors w + Suc n"
proof -
  have p1: "1 + n \<le> 5" using n by simp
  have p2: "\<forall>k<n. insert_outcomes w k \<noteq> None \<and> \<not> done_first w k"
    using fail go by simp
  from retry_loop_skip[OF ev p1 p2, of "200 * Millisecond"] obtain w' b' where
    r: "retry_loop 1 (200 * Millisecond) events w = retry_loop (1 + n) b' events w'"
    and o: "insert_outcomes w' = (\<lambda>k. insert_outcomes w (k + n))"
    and d: "done_first w' = (\<lambda>k. done_first w (k + n))"
    and c: "insert_calls w' = insert_calls w @ replicate n events"
    and t: "length (timers w') = length (timers w) + n"
    and i: "insertErrors w' = insertErrors w + n"
    by blast
  from fail o obtain err where err: "insert_outcomes w' 0 = Some err" by auto
  from stop d have dn: "done_first w' 0" by simp
  have lt: "1 + n < 5" using n by simp
  from retry_loop_cancel[OF lt ev err dn, of b'] obtain w2 where
    w2: "failed_once b' events w' w2" and r2: "retry_loop (1 + n) b' events w' = (Some CtxErr, w2)"
    by blast
  have res: "insertWithRetry events w = (Some CtxErr, w2)"
    unfolding insertWithRetry_def using r r2 by simp
  show ?thesis
    unfolding res using w2 c t i by (simp add: replicate_append_same)
qed

text \<open>The context is done during the second wait: two inserts, then \<^verbatim>\<open>ctx.Err()\<close>.\<close>

theorem retry_cancelled_witness:
  "fst (insertWithRetry [7] (failing_world (Some 1))) = Some CtxErr \<and>
   insert_calls (snd (insertWithRetry [7] (failing_world (Some 1)))) = [[7], [7]] \<and>
   length (timers (snd (insertWithRetry [7] (failing_world (Some 1))))) = 2"
  using retry_cancelled[of "[7]" 1 "failing_world (Some 1)"]
  by (simp add: failing_world_def eval_nat_numeral)

lemma run_append:
  "run (as @ bs) c = (case run as c of None \<Rightarrow> None | Some c' \<Rightarrow> run bs c')"
  by (induction as arbitrary: c) (auto split: option.splits)


lemma appended_append: "appended (xs @ ys) = appended xs @ appended ys"
  by (induction xs rule: appended.induct) simp_all

lemma batches_append: "batches (xs @ ys) = batches xs @ batches ys"
  by (induction xs rule: batches.induct) simp_all


lemma detach_cases:
  assumes "detach b = (batch, b')"
  shows "(buffer b = [] \<and> batch = None \<and> b' = b) \<or>
         (buffer b \<noteq> [] \<and> batch = Some (buffer b) \<and> b' = b\<lparr>buffer := []\<rparr>)"
  using assms by (auto simp: detach_def split: if_splits)

lemma Add_locked_cases:
  assumes "Add_locked b x = (sf, batch, b')"
  shows "(sf \<and> batch = Some (buffer b @ [x]) \<and> b' = b\<lparr>buffer := []\<rparr>) \<or>
         (\<not> sf \<and> batch = None \<and> b' = b\<lparr>buffer := buffer b @ [x]\<rparr>)"
  using assms by (auto simp: Add_locked_def Let_def detach_def split: if_splits)

lemma accounted_start: "accounted (start n i f e)"
  by (simp add: accounted_def start_def New_def)

lemma accounted_step:
  assumes "accounted c" and "step a c = Some c'"
  shows "accounted c'"
proof (cases a)
  case (EnterAdd t x)
  obtain sf batch b' where al: "Add_locked (shared c) x = (sf, batch, b')"
    by (cases "Add_locked (shared c) x")
  from Add_locked_cases[OF al] assms EnterAdd al show ?thesis
    by (auto simp: accounted_def appended_append batches_append split: if_splits)
next
  case (EnterFlush t)
  obtain batch b' where d: "detach (shared c) = (batch, b')" by (cases "detach (shared c)")
  from detach_cases[OF d] assms EnterFlush d show ?thesis
    by (auto simp: accounted_def appended_append batches_append split: if_splits)
next
  case LoopTick
  obtain batch b' where d: "detach (shared c) = (batch, b')" by (cases "detach (shared c)")
  from detach_cases[OF d] assms LoopTick d show ?thesis
    by (auto simp: accounted_def appended_append batches_append split: loop_pc.splits)
next
  case CloseEntersFlush
  obtain batch b' where d: "detach (shared c) = (batch, b')" by (cases "detach (shared c)")
  from detach_cases[OF d] assms CloseEntersFlush d show ?thesis
    by (auto simp: accounted_def appended_append batches_append split: close_pc.splits)
qed (use assms in \<open>auto simp: accounted_def appended_append batches_append
      split: if_splits prod.splits call_pc.splits loop_pc.splits close_pc.splits\<close>)

lemma accounted_run:
  "accounted c \<Longrightarrow> run acts c = Some c' \<Longrightarrow> accounted c'"
proof (induction acts arbitrary: c)
  case Nil
  then show ?case by simp
next
  case (Cons a acts)
  then show ?case by (auto split: option.splits dest: accounted_step)
qed

lemma disjoint_batches:
  assumes d: "distinct (concat bs)" and ne: "[] \<notin> set bs" and ij: "i < j" "j < length bs"
  shows "set (bs ! i) \<inter> set (bs ! j) = {}"
proof -
  from d have db: "distinct (removeAll [] bs)"
    and dj: "\<And>ys zs. ys \<in> set bs \<Longrightarrow> zs \<in> set bs \<Longrightarrow> ys \<noteq> zs \<Longrightarrow> set ys \<inter> set zs = {}"
    by (auto simp: distinct_concat_iff)
  from ne have "removeAll [] bs = bs" by simp
  with db have "distinct bs" by simp
  with ij have "bs ! i \<noteq> bs ! j" by (simp add: nth_eq_iff_index_eq)
  with dj[of "bs ! i" "bs ! j"] ij show ?thesis by simp
qed

lemma batch_is_segment:
  assumes "k < length bs"
  shows "take (length (bs ! k)) (drop (length (concat (take k bs))) (concat bs @ rest)) = bs ! k"
proof -
  from assms have "bs = take k bs @ bs ! k # drop (Suc k) bs" by (rule id_take_nth_drop)
  then have "concat bs = concat (take k bs) @ bs ! k @ concat (drop (Suc k) bs)"
    by (metis concat.simps(2) concat_append)
  then show ?thesis by simp
qed

text \<open>
  C2. In every interleaving of the steps of the callers, the loop and \<^verbatim>\<open>Close\<close> on a new
  batcher: the batches detached so far, one after the other in the order of their detaching
  and followed by what the buffer holds, are exactly the items appended so far, in their
  order; so each appended item is in one batch or still in the buffer, and in one place only.
  Batch number \<open>k\<close> is the stretch of the appended items that starts where the batches
  before it end, so two batches never hold the same appended item, also when equal values
  have been added more than once. No detached batch is empty. When the appended items are
  told apart by their values (no two are equal), any two batches share no value. When two
  batches have been detached and the buffer is empty, they hold together the items appended
  before the second detach, each once.
\<close>

theorem batches_partition_added:
  assumes "run acts (start n i f e) = Some c"
  shows "concat (batches (history c)) @ buffer (shared c) = appended (history c) \<and>
     (\<forall>k. k < length (batches (history c)) \<longrightarrow>
        batches (history c) ! k =
          take (length (batches (history c) ! k))
            (drop (length (concat (take k (batches (history c))))) (appended (history c)))) \<and>
     [] \<notin> set (batches (history c)) \<and>
     (distinct (appended (history c)) \<longrightarrow>
        (\<forall>j k. j < k \<and> k < length (batches (history c)) \<longrightarrow>
           set (batches (history c) ! j) \<inter> set (batches (history c) ! k) = {})) \<and>
     (\<forall>b1 b2. batches (history c) = [b1, b2] \<and> buffer (shared c) = [] \<longrightarrow>
        b1 @ b2 = appended (history c) \<and> set b1 \<union> set b2 = set (appended (history c)))"
proof -
  from accounted_run[OF accounted_start assms]
  have a: "concat (batches (history c)) @ buffer (shared c) = appended (history c)"
    and ne: "[] \<notin> set (batches (history c))"
    by (simp_all add: accounted_def)
  have dis: "distinct (appended (history c)) \<longrightarrow>
        (\<forall>j k. j < k \<and> k < length (batches (history c)) \<longrightarrow>
           set (batches (history c) ! j) \<inter> set (batches (history c) ! k) = {})"
  proof (intro impI allI)
    fix j k
    assume "distinct (appended (history c))" and jk: "j < k \<and> k < length (batches (history c))"
    with a have "distinct (concat (batches (history c)))"
      by (metis distinct_append)
    from disjoint_batches[OF this ne] jk
    show "set (batches (history c) ! j) \<inter> set (batches (history c) ! k) = {}" by simp
  qed
  have two: "\<forall>b1 b2. batches (history c) = [b1, b2] \<and> buffer (shared c) = [] \<longrightarrow>
        b1 @ b2 = appended (history c) \<and> set b1 \<union> set b2 = set (appended (history c))"
  proof (intro allI impI)
    fix b1 b2
    assume "batches (history c) = [b1, b2] \<and> buffer (shared c) = []"
    with a have "b1 @ b2 = appended (history c)" by simp
    then show "b1 @ b2 = appended (history c) \<and> set b1 \<union> set b2 = set (appended (history c))"
      by (metis set_append)
  qed
  have seg: "\<forall>k. k < length (batches (history c)) \<longrightarrow>
        batches (history c) ! k =
          take (length (batches (history c) ! k))
            (drop (length (concat (take k (batches (history c))))) (appended (history c)))"
    using batch_is_segment[of _ "batches (history c)" "buffer (shared c)"] a by simp
  from a seg ne dis two show ?thesis by blast
qed

text \<open>
  Threshold 2. Caller 0 adds 1 and 2 and so detaches \<open>[1, 2]\<close>; before it has run its flush,
  caller 1 adds 3 and the loop's tick detaches \<open>[3]\<close>; then both flushes run, the loop's first.
\<close>

theorem batches_partition_added_witness:
  "map_option (\<lambda>c. (batches (history c), buffer (shared c), appended (history c), sink_calls (outside c)))
     (run [EnterAdd 0 1, EnterAdd 0 2, EnterAdd 1 3, LoopTick, LoopRunsFlush, CallerRunFlush 0]
        (start 2 1000 (Some accepting_sink) env0))
     = Some ([[1, 2], [3]], [], [1, 2, 3], [[3], [1, 2]]) \<and>
   set [1, 2 :: int] \<inter> set [3] = {}"
  using batches_partition_added
    [of "[EnterAdd 0 1, EnterAdd 0 2, EnterAdd 1 3, LoopTick, LoopRunsFlush, CallerRunFlush 0]"
        2 1000 "Some accepting_sink" env0
        "the (run [EnterAdd 0 1, EnterAdd 0 2, EnterAdd 1 3, LoopTick, LoopRunsFlush, CallerRunFlush 0]
           (start 2 1000 (Some accepting_sink) env0))"]
  by (simp add: start_def New_def env0_def accepting_sink_def Add_locked_def detach_def
      runFlush_def len_def in_call_def Let_def)

lemma delivered_append: "delivered (xs @ ys) = delivered xs @ delivered ys"
  by (induction xs rule: delivered.induct) simp_all

lemma detach_flushFn: "detach b = (batch, b') \<Longrightarrow> flushFn b' = flushFn b"
  by (auto simp: detach_def split: if_splits)

lemma Add_locked_flushFn: "Add_locked b x = (sf, batch, b') \<Longrightarrow> flushFn b' = flushFn b"
  by (auto simp: Add_locked_def Let_def detach_def split: if_splits)

lemma runFlush_cases:
  assumes "runFlush b batch e = (err, e')"
  shows "(len batch = 0 \<and> err = None \<and> e' = e) \<or>
         (len batch \<noteq> 0 \<and> flushFn b = None \<and> err = Some ErrNoFlushFn \<and> e' = e) \<or>
         (\<exists>f xs. batch = Some xs \<and> xs \<noteq> [] \<and> flushFn b = Some f \<and>
            err = map_option ErrSink (fst (f xs (sink_state e))) \<and>
            e' = e\<lparr>sink_state := snd (f xs (sink_state e)), sink_calls := sink_calls e @ [xs]\<rparr>)"
  using assms
  by (cases batch) (auto simp: runFlush_def len_def split: if_splits option.splits prod.splits)

lemma delivered_Flushed:
  "delivered [Flushed who batch err] = (if len batch = 0 then [] else [(who, the batch)])"
  by (cases batch) (simp_all add: len_def)

lemma sink_log_start: "sink_log_inv e f (start n i f e)"
  by (simp add: sink_log_inv_def start_def New_def)

lemma sink_log_step:
  assumes inv: "sink_log_inv e f c" and st: "step a c = Some c'"
  shows "sink_log_inv e f c'"
proof (cases a)
  case (EnterAdd t x)
  obtain sf batch b' where al: "Add_locked (shared c) x = (sf, batch, b')"
    by (cases "Add_locked (shared c) x")
  from Add_locked_flushFn[OF al] inv st EnterAdd al show ?thesis
    by (auto simp: sink_log_inv_def delivered_append split: if_splits)
next
  case (EnterFlush t)
  obtain batch b' where d: "detach (shared c) = (batch, b')" by (cases "detach (shared c)")
  from detach_flushFn[OF d] inv st EnterFlush d show ?thesis
    by (auto simp: sink_log_inv_def delivered_append split: if_splits)
next
  case (CallLastError t)
  with inv st show ?thesis by (auto simp: sink_log_inv_def split: if_splits)
next
  case (CallerRunFlush t)
  with st obtain batch where pc: "call_at c t = CallRunFlush batch"
    by (auto split: call_pc.splits)
  obtain err e' where rf: "runFlush (shared c) batch (outside c) = (err, e')"
    by (cases "runFlush (shared c) batch (outside c)")
  from runFlush_cases[OF rf] inv st CallerRunFlush pc rf show ?thesis
    by (auto simp: sink_log_inv_def delivered_append delivered_Flushed len_def)
next
  case LoopTick
  obtain batch b' where d: "detach (shared c) = (batch, b')" by (cases "detach (shared c)")
  from detach_flushFn[OF d] inv st LoopTick d show ?thesis
    by (auto simp: sink_log_inv_def delivered_append split: loop_pc.splits)
next
  case LoopRunsFlush
  with st obtain batch where pc: "loop_at c = LoopRunFlush batch"
    by (auto split: loop_pc.splits)
  obtain err e' where rf: "runFlush (shared c) batch (outside c) = (err, e')"
    by (cases "runFlush (shared c) batch (outside c)")
  from runFlush_cases[OF rf] inv st LoopRunsFlush pc rf show ?thesis
    by (auto simp: sink_log_inv_def delivered_append delivered_Flushed len_def)
next
  case LoopStoresError
  with inv st show ?thesis by (auto simp: sink_log_inv_def split: loop_pc.splits)
next
  case LoopStops
  with inv st show ?thesis by (auto simp: sink_log_inv_def split: loop_pc.splits if_splits)
next
  case CloseStop
  with inv st show ?thesis by (auto simp: sink_log_inv_def split: close_pc.splits if_splits)
next
  case CloseJoin
  with inv st show ?thesis by (auto simp: sink_log_inv_def split: close_pc.splits if_splits)
next
  case CloseEntersFlush
  obtain batch b' where d: "detach (shared c) = (batch, b')" by (cases "detach (shared c)")
  from detach_flushFn[OF d] inv st CloseEntersFlush d show ?thesis
    by (auto simp: sink_log_inv_def delivered_append split: close_pc.splits)
next
  case CloseRunsFlush
  with st obtain batch where pc: "close_at c = CloseRunFlush batch"
    by (auto split: close_pc.splits)
  obtain err e' where rf: "runFlush (shared c) batch (outside c) = (err, e')"
    by (cases "runFlush (shared c) batch (outside c)")
  from runFlush_cases[OF rf] inv st CloseRunsFlush pc rf show ?thesis
    by (auto simp: sink_log_inv_def delivered_append delivered_Flushed len_def)
qed

lemma sink_log_run:
  "sink_log_inv e f c \<Longrightarrow> run acts c = Some c' \<Longrightarrow> sink_log_inv e f c'"
proof (induction acts arbitrary: c)
  case Nil
  then show ?case by simp
next
  case (Cons a acts)
  then show ?case by (auto split: option.splits dest: sink_log_step)
qed

lemma events_of_single:
  "events_of who [ev] = (if event_actor ev = Some who then [ev] else [])"
  by (simp add: events_of_def)


















lemma runFlush_flushFn: "flushFn b' = flushFn b \<Longrightarrow> runFlush b' batch e = runFlush b batch e"
  by (simp add: runFlush_def)










lemma go_append_contents:
  assumes "wf_slice h s" and "go_append grow zero h s x = (h', s')"
  shows "contents h' s' = contents h s @ [x]" and "wf_slice h' s'"
proof -
  show "contents h' s' = contents h s @ [x]"
  proof (cases "go_len s < go_cap s")
    case True
    then obtain sl where s: "s = Some sl" by (cases s) (auto simp: go_len_def go_cap_def)
    with True assms show ?thesis
      by (auto simp: go_append_def contents_def wf_slice_def go_len_def go_cap_def
          take_Suc_conv_app_nth)
  next
    case False
    with assms show ?thesis
      by (cases s) (auto simp: go_append_def contents_def wf_slice_def go_len_def go_cap_def Let_def)
  qed
  show "wf_slice h' s'"
  proof (cases "go_len s < go_cap s")
    case True
    then obtain sl where s: "s = Some sl" by (cases s) (auto simp: go_len_def go_cap_def)
    with True assms show ?thesis
      by (auto simp: go_append_def wf_slice_def go_len_def go_cap_def)
  next
    case False
    with assms show ?thesis
      by (cases s) (auto simp: go_append_def contents_def wf_slice_def go_len_def go_cap_def Let_def)
  qed
qed

lemma go_append_apart:
  assumes ap: "apart m bs" and a: "go_append grow zero (mem m) (buffer_slice m) x = (h', s')"
  shows "apart (m\<lparr>mem := h', buffer_slice := s'\<rparr>) bs"
    and "arrays h' (slice_array bs) = arrays (mem m) (slice_array bs)"
proof -
  from ap have wf: "wf_slice (mem m) (buffer_slice m)" by (simp add: apart_def)
  from go_append_contents(2)[OF wf a] have wf': "wf_slice h' s'" .
  show "arrays h' (slice_array bs) = arrays (mem m) (slice_array bs)"
  proof (cases "go_len (buffer_slice m) < go_cap (buffer_slice m)")
    case True
    then obtain sl where s: "buffer_slice m = Some sl"
      by (cases "buffer_slice m") (auto simp: go_len_def go_cap_def)
    with True ap a show ?thesis by (auto simp: go_append_def apart_def)
  next
    case False
    with ap a show ?thesis by (auto simp: go_append_def apart_def Let_def)
  qed
  show "apart (m\<lparr>mem := h', buffer_slice := s'\<rparr>) bs"
  proof (cases "go_len (buffer_slice m) < go_cap (buffer_slice m)")
    case True
    then obtain sl where s: "buffer_slice m = Some sl"
      by (cases "buffer_slice m") (auto simp: go_len_def go_cap_def)
    with True ap a wf' show ?thesis by (auto simp: go_append_def apart_def)
  next
    case False
    with ap a wf' show ?thesis by (auto simp: go_append_def apart_def Let_def)
  qed
qed

lemma detach_mem_nonempty:
  assumes wf: "wf_slice (mem m) (buffer_slice m)" and ne: "go_len (buffer_slice m) \<noteq> 0"
    and d: "detach_mem zero m = (batch, m')"
  shows "\<exists>sl. buffer_slice m = Some sl \<and>
     batch = Some \<lparr>slice_array = next_array (mem m), slice_len = slice_len sl, slice_cap = slice_len sl\<rparr> \<and>
     buffer_slice m' = Some (sl\<lparr>slice_len := 0\<rparr>) \<and>
     next_array (mem m') = Suc (next_array (mem m)) \<and>
     arrays (mem m') = (arrays (mem m))
       (next_array (mem m) := take (slice_len sl) (arrays (mem m) (slice_array sl))) \<and>
     maxSize_mem m' = maxSize_mem m"
proof -
  from ne obtain sl where s: "buffer_slice m = Some sl"
    by (cases "buffer_slice m") (auto simp: go_len_def)
  from wf s have lt: "slice_array sl < next_array (mem m)" by (simp add: wf_slice_def)
  from d ne s lt show ?thesis
    by (auto simp: detach_mem_def go_make_def go_copy_def reslice0_def go_len_def Let_def)
qed

lemma detach_mem_apart:
  assumes ap: "apart m bs" and d: "detach_mem zero m = (batch, m')"
  shows "apart m' bs" and "arrays (mem m') (slice_array bs) = arrays (mem m) (slice_array bs)"
proof -
  from ap have wf: "wf_slice (mem m) (buffer_slice m)" by (simp add: apart_def)
  show "apart m' bs"
  proof (cases "go_len (buffer_slice m) = 0")
    case True
    with d ap show ?thesis by (simp add: detach_mem_def)
  next
    case False
    from detach_mem_nonempty[OF wf False d] ap show ?thesis
      by (auto simp: apart_def wf_slice_def)
  qed
  show "arrays (mem m') (slice_array bs) = arrays (mem m) (slice_array bs)"
  proof (cases "go_len (buffer_slice m) = 0")
    case True
    with d show ?thesis by (simp add: detach_mem_def)
  next
    case False
    from detach_mem_nonempty[OF wf False d] ap show ?thesis
      by (auto simp: apart_def)
  qed
qed

lemma Add_locked_mem_apart:
  assumes ap: "apart m bs" and a: "Add_locked_mem grow zero m x = (sf, batch, m')"
  shows "apart m' bs" and "arrays (mem m') (slice_array bs) = arrays (mem m) (slice_array bs)"
proof -
  obtain h1 s1 where g: "go_append grow zero (mem m) (buffer_slice m) x = (h1, s1)"
    by (cases "go_append grow zero (mem m) (buffer_slice m) x")
  let ?m1 = "m\<lparr>mem := h1, buffer_slice := s1\<rparr>"
  from go_append_apart[OF ap g] have ap1: "apart ?m1 bs"
    and ar1: "arrays h1 (slice_array bs) = arrays (mem m) (slice_array bs)" .
  obtain b2 m2 where d: "detach_mem zero ?m1 = (b2, m2)" by (cases "detach_mem zero ?m1")
  from detach_mem_apart[OF ap1 d] have ap2: "apart m2 bs"
    and ar2: "arrays (mem m2) (slice_array bs) = arrays h1 (slice_array bs)" by simp_all
  from a g d have "m' = m2 \<or> m' = ?m1"
    by (auto simp: Add_locked_mem_def Let_def split: if_splits)
  with ap1 ap2 ar1 ar2 show "apart m' bs"
    and "arrays (mem m') (slice_array bs) = arrays (mem m) (slice_array bs)" by auto
qed

lemma run_mem_apart:
  "apart m bs \<Longrightarrow>
   apart (run_mem grow zero ops m) bs \<and>
   arrays (mem (run_mem grow zero ops m)) (slice_array bs) = arrays (mem m) (slice_array bs)"
proof (induction ops arbitrary: m)
  case Nil
  then show ?case by simp
next
  case (Cons op ops)
  show ?case
  proof (cases op)
    case (AddOp x)
    obtain sf batch m' where a: "Add_locked_mem grow zero m x = (sf, batch, m')"
      by (cases "Add_locked_mem grow zero m x")
    from Add_locked_mem_apart[OF Cons.prems a] Cons.IH[of m'] AddOp a show ?thesis by simp
  next
    case FlushOp
    obtain batch m' where d: "detach_mem zero m = (batch, m')" by (cases "detach_mem zero m")
    from detach_mem_apart[OF Cons.prems d] Cons.IH[of m'] FlushOp d show ?thesis by simp
  qed
qed

lemma contents_Nil_iff: "wf_slice h s \<Longrightarrow> contents h s = [] \<longleftrightarrow> go_len s = 0"
  by (cases s) (auto simp: contents_def wf_slice_def go_len_def)

lemma length_contents: "wf_slice h s \<Longrightarrow> length (contents h s) = go_len s"
  by (cases s) (auto simp: contents_def wf_slice_def go_len_def)

lemma detach_mem_refines:
  assumes wf: "wf_slice (mem m) (buffer_slice m)"
    and ab: "buffer b = contents (mem m) (buffer_slice m)"
    and d: "detach_mem zero m = (batch, m')"
  shows "detach b =
      ((if batch = None then None else Some (contents (mem m') batch)),
       b\<lparr>buffer := contents (mem m') (buffer_slice m')\<rparr>)"
    and "wf_slice (mem m') (buffer_slice m')"
proof -
  show "detach b =
      ((if batch = None then None else Some (contents (mem m') batch)),
       b\<lparr>buffer := contents (mem m') (buffer_slice m')\<rparr>)"
  proof (cases "go_len (buffer_slice m) = 0")
    case True
    with d have "batch = None" "m' = m" by (simp_all add: detach_mem_def)
    with True wf ab show ?thesis by (simp add: detach_def contents_Nil_iff)
  next
    case False
    from detach_mem_nonempty[OF wf False d] obtain sl where
      s: "buffer_slice m = Some sl" and
      b: "batch = Some \<lparr>slice_array = next_array (mem m), slice_len = slice_len sl, slice_cap = slice_len sl\<rparr>" and
      b': "buffer_slice m' = Some (sl\<lparr>slice_len := 0\<rparr>)" and
      ar: "arrays (mem m') = (arrays (mem m))
        (next_array (mem m) := take (slice_len sl) (arrays (mem m) (slice_array sl)))"
      by blast
    from False wf ab have "buffer b \<noteq> []" by (simp add: contents_Nil_iff)
    with s b b' ar ab show ?thesis by (simp add: detach_def contents_def)
  qed
  show "wf_slice (mem m') (buffer_slice m')"
  proof (cases "go_len (buffer_slice m) = 0")
    case True
    with d wf show ?thesis by (simp add: detach_mem_def)
  next
    case False
    from detach_mem_nonempty[OF wf False d] wf show ?thesis
      by (auto simp: wf_slice_def)
  qed
qed

lemma Add_locked_mem_refines:
  assumes wf: "wf_slice (mem m) (buffer_slice m)"
    and ab: "buffer b = contents (mem m) (buffer_slice m)" and mx: "maxSize b = maxSize_mem m"
    and a: "Add_locked_mem grow zero m x = (sf, batch, m')"
  shows "Add_locked b x =
      (sf, (if batch = None then None else Some (contents (mem m') batch)),
       b\<lparr>buffer := contents (mem m') (buffer_slice m')\<rparr>)"
    and "wf_slice (mem m') (buffer_slice m')"
proof -
  obtain h1 s1 where g: "go_append grow zero (mem m) (buffer_slice m) x = (h1, s1)"
    by (cases "go_append grow zero (mem m) (buffer_slice m) x")
  let ?m1 = "m\<lparr>mem := h1, buffer_slice := s1\<rparr>"
  let ?b1 = "b\<lparr>buffer := buffer b @ [x]\<rparr>"
  from go_append_contents[OF wf g] have c1: "contents h1 s1 = buffer b @ [x]"
    and wf1: "wf_slice (mem ?m1) (buffer_slice ?m1)" using ab by simp_all
  from length_contents[of h1 s1] wf1 c1 have l1: "go_len s1 = length (buffer b @ [x])" by simp
  obtain b2 m2 where d: "detach_mem zero ?m1 = (b2, m2)" by (cases "detach_mem zero ?m1")
  have ab1: "buffer ?b1 = contents (mem ?m1) (buffer_slice ?m1)" using c1 by simp
  from detach_mem_refines[OF wf1 ab1 d]
  have r: "detach ?b1 =
      ((if b2 = None then None else Some (contents (mem m2) b2)),
       ?b1\<lparr>buffer := contents (mem m2) (buffer_slice m2)\<rparr>)"
    and wf2: "wf_slice (mem m2) (buffer_slice m2)" .
  show "Add_locked b x =
      (sf, (if batch = None then None else Some (contents (mem m') batch)),
       b\<lparr>buffer := contents (mem m') (buffer_slice m')\<rparr>)"
    using a g d r l1 mx c1
    by (auto simp: Add_locked_mem_def Add_locked_def Let_def split: if_splits)
  from a g d have "m' = m2 \<or> m' = ?m1"
    by (auto simp: Add_locked_mem_def Let_def split: if_splits)
  with wf1 wf2 show "wf_slice (mem m') (buffer_slice m')" by auto
qed

lemma runFlush_steps_keep_shared:
  assumes "step a c = Some c'" and "a = CallerRunFlush t \<or> a = LoopRunsFlush \<or> a = CloseRunsFlush"
  shows "shared c' = shared c"
  using assms by (auto split: call_pc.splits loop_pc.splits close_pc.splits prod.splits)

lemma Flush_batcher: "fst (snd (Flush b e)) = b\<lparr>buffer := []\<rparr>"
  by (simp add: Flush_def detach_def split: prod.splits)

text \<open>
  C8. A buffer that holds items is detached, on slices (\<open>m\<close>, well formed) and on lists
  (\<open>b\<close>, with the same items). The batch shows the items the buffer showed and the buffer
  shows none. Whatever critical sections of \<^verbatim>\<open>Add\<close> and \<^verbatim>\<open>Flush\<close> run afterwards, in any number
  and order, the batch still shows the same items: no later append writes into its array.
  \<^verbatim>\<open>Flush\<close> leaves the batcher with an empty buffer whatever the flush function returns,
  and in an interleaving the steps that run \<^verbatim>\<open>runFlush\<close>, the only ones that learn the
  outcome, change no field of the batcher: nothing is put back.
\<close>

theorem detached_batch_is_private:
  assumes wf: "wf_slice (mem m) (buffer_slice m)"
    and ab: "buffer b = contents (mem m) (buffer_slice m)"
    and ne: "buffer b \<noteq> []"
    and d: "detach_mem zero m = (batch, m')"
  shows "detach b = (Some (buffer b), b\<lparr>buffer := []\<rparr>) \<and>
     contents (mem m') batch = buffer b \<and>
     contents (mem m') (buffer_slice m') = [] \<and>
     (\<forall>ops. contents (mem (run_mem grow zero ops m')) batch = buffer b) \<and>
     fst (snd (Flush b e)) = b\<lparr>buffer := []\<rparr> \<and>
     (step a c = Some c' \<and> (a = CallerRunFlush t \<or> a = LoopRunsFlush \<or> a = CloseRunsFlush) \<longrightarrow>
        shared c' = shared c)"
proof -
  from ne ab wf have nz: "go_len (buffer_slice m) \<noteq> 0" by (simp add: contents_Nil_iff)
  from detach_mem_nonempty[OF wf nz d] obtain sl where
    s: "buffer_slice m = Some sl" and
    bt: "batch = Some \<lparr>slice_array = next_array (mem m), slice_len = slice_len sl, slice_cap = slice_len sl\<rparr>" and
    b': "buffer_slice m' = Some (sl\<lparr>slice_len := 0\<rparr>)" and
    nx: "next_array (mem m') = Suc (next_array (mem m))" and
    ar: "arrays (mem m') = (arrays (mem m))
      (next_array (mem m) := take (slice_len sl) (arrays (mem m) (slice_array sl)))"
    by blast
  let ?bs = "\<lparr>slice_array = next_array (mem m), slice_len = slice_len sl, slice_cap = slice_len sl\<rparr>"
  have l1: "detach b = (Some (buffer b), b\<lparr>buffer := []\<rparr>)" using ne by (rule detach_nonempty)
  have c1: "contents (mem m') batch = buffer b"
    using s bt ar ab by (simp add: contents_def)
  have c2: "contents (mem m') (buffer_slice m') = []"
    using b' by (simp add: contents_def)
  from detach_mem_refines(2)[OF wf ab d] have wf': "wf_slice (mem m') (buffer_slice m')" .
  from wf s have "slice_array sl < next_array (mem m)" by (simp add: wf_slice_def)
  with wf' b' nx have ap: "apart m' ?bs" by (simp add: apart_def)
  have later: "\<forall>ops. contents (mem (run_mem grow zero ops m')) batch = buffer b"
  proof
    fix ops
    from run_mem_apart[OF ap, of grow zero ops]
    have "arrays (mem (run_mem grow zero ops m')) (slice_array ?bs) = arrays (mem m') (slice_array ?bs)"
      by simp
    then have "contents (mem (run_mem grow zero ops m')) batch = contents (mem m') batch"
      unfolding bt by (simp add: contents_def)
    with c1 show "contents (mem (run_mem grow zero ops m')) batch = buffer b" by simp
  qed
  have fl: "fst (snd (Flush b e)) = b\<lparr>buffer := []\<rparr>" by (rule Flush_batcher)
  have st: "step a c = Some c' \<and> (a = CallerRunFlush t \<or> a = LoopRunsFlush \<or> a = CloseRunsFlush) \<longrightarrow>
        shared c' = shared c"
    using runFlush_steps_keep_shared by blast
  from l1 c1 c2 later fl st show ?thesis by blast
qed

text \<open>
  The buffer \<open>[1, 2]\<close> of \<open>mem0\<close> is detached and then 9 and 8 are added: they are written
  over 1 and 2 in the buffer's array at address 0, and the batch, in the array at address 1,
  still shows \<open>[1, 2]\<close>. A failing sink leaves the buffer empty.
\<close>

theorem detached_batch_is_private_witness:
  "fst (detach_mem 0 mem0) = Some \<lparr>slice_array = 1, slice_len = 2, slice_cap = 2\<rparr> \<and>
   contents (mem (run_mem (\<lambda>n. 2 * n) 0 [AddOp 9, AddOp 8] (snd (detach_mem 0 mem0))))
     (fst (detach_mem 0 mem0)) = [1, 2] \<and>
   arrays (mem (run_mem (\<lambda>n. 2 * n) 0 [AddOp 9, AddOp 8] (snd (detach_mem 0 mem0)))) 0
     = [9, 8, 0, 0] \<and>
   Flush ((New 3 1000 (Some failing_sink))\<lparr>buffer := [1, 2]\<rparr>) env0 =
     (Some (ErrSink ''down''), New 3 1000 (Some failing_sink),
      \<lparr>sink_state = 1, sink_calls = [[1, 2]]\<rparr>)"
  using detached_batch_is_private
    [of mem0 "(New 3 1000 (Some failing_sink))\<lparr>buffer := [1, 2]\<rparr>" 0
        "fst (detach_mem 0 mem0)" "snd (detach_mem 0 mem0)" "\<lambda>n. 2 * n" env0]
  by (simp add: mem0_def wf_slice_def contents_def detach_mem_def go_make_def go_copy_def
      reslice0_def go_len_def go_cap_def Let_def Add_locked_mem_def go_append_def
      New_def Flush_def detach_def runFlush_def len_def failing_sink_def env0_def)

lemma below_threshold_step:
  assumes "maxSize (shared c) = n \<and> int (length (buffer (shared c))) < n" and "1 \<le> n"
    and "step a c = Some c'"
  shows "maxSize (shared c') = n \<and> int (length (buffer (shared c'))) < n"
proof (cases a)
  case (EnterAdd t x)
  with assms show ?thesis
    by (auto simp: Add_locked_def Let_def detach_def split: if_splits)
next
  case (EnterFlush t)
  with assms show ?thesis by (auto simp: detach_def split: if_splits)
next
  case LoopTick
  with assms show ?thesis by (auto simp: detach_def split: if_splits loop_pc.splits)
next
  case CloseEntersFlush
  with assms show ?thesis by (auto simp: detach_def split: if_splits close_pc.splits)
qed (use assms in \<open>auto split: if_splits prod.splits call_pc.splits loop_pc.splits close_pc.splits\<close>)

lemma below_threshold_run:
  "maxSize (shared c) = n \<and> int (length (buffer (shared c))) < n \<Longrightarrow> 1 \<le> n \<Longrightarrow>
   run acts c = Some c' \<Longrightarrow> maxSize (shared c') = n \<and> int (length (buffer (shared c'))) < n"
proof (induction acts arbitrary: c)
  case Nil
  then show ?case by simp
next
  case (Cons a acts)
  from Cons.prems(3) obtain c1 where s: "step a c = Some c1" and r: "run acts c1 = Some c'"
    by (auto split: option.splits)
  from below_threshold_step[OF Cons.prems(1,2) s] Cons.IH[OF _ Cons.prems(2) r] show ?case by simp
qed

lemma add_below_threshold:
  assumes "\<not> in_call (call_at c t)" and "int (length (buffer (shared c))) + 1 < maxSize (shared c)"
  shows "\<exists>c'. step (EnterAdd t x) c = Some c' \<and> call_at c' t = CallReturned None \<and>
     shared c' = (shared c)\<lparr>buffer := buffer (shared c) @ [x]\<rparr> \<and> outside c' = outside c \<and>
     loop_at c' = loop_at c \<and> close_at c' = close_at c \<and>
     history c' = history c @ [Appended x]"
  using assms by (simp add: Add_locked_def Let_def)

lemma add_at_threshold:
  assumes "\<not> in_call (call_at c t)" and "maxSize (shared c) \<le> int (length (buffer (shared c))) + 1"
    and "flushFn (shared c) = Some f"
  shows "\<exists>c1 c2. step (EnterAdd t x) c = Some c1 \<and>
     call_at c1 t = CallRunFlush (Some (buffer (shared c) @ [x])) \<and>
     shared c1 = (shared c)\<lparr>buffer := []\<rparr> \<and> outside c1 = outside c \<and>
     history c1 = history c @ [Appended x, Detached (Caller t) (Some (buffer (shared c) @ [x]))] \<and>
     step (CallerRunFlush t) c1 = Some c2 \<and>
     call_at c2 t =
       CallReturned (map_option ErrSink (fst (f (buffer (shared c) @ [x]) (sink_state (outside c))))) \<and>
     outside c2 =
       (outside c)\<lparr>sink_state := snd (f (buffer (shared c) @ [x]) (sink_state (outside c))),
         sink_calls := sink_calls (outside c) @ [buffer (shared c) @ [x]]\<rparr> \<and>
     shared c2 = (shared c)\<lparr>buffer := []\<rparr>"
  using assms
  by (simp add: Add_locked_def Let_def detach_def runFlush_def len_def split: prod.splits)

lemma adds_below_threshold:
  "\<not> in_call (call_at c t) \<Longrightarrow>
   int (length (buffer (shared c))) + int (length xs) < maxSize (shared c) \<Longrightarrow>
   \<exists>c'. run (map (EnterAdd t) xs) c = Some c' \<and> \<not> in_call (call_at c' t) \<and>
     shared c' = (shared c)\<lparr>buffer := buffer (shared c) @ xs\<rparr> \<and> outside c' = outside c \<and>
     batches (history c') = batches (history c)"
proof (induction xs arbitrary: c)
  case Nil
  then show ?case by simp
next
  case (Cons x xs)
  have "int (length (buffer (shared c))) + 1 < maxSize (shared c)" using Cons.prems(2) by simp
  from add_below_threshold[OF Cons.prems(1) this, of x] obtain c1 where
    s: "step (EnterAdd t x) c = Some c1" and pc: "call_at c1 t = CallReturned None"
    and sh: "shared c1 = (shared c)\<lparr>buffer := buffer (shared c) @ [x]\<rparr>"
    and out: "outside c1 = outside c" and h: "history c1 = history c @ [Appended x]"
    by blast
  have p1: "\<not> in_call (call_at c1 t)" using pc by (simp add: in_call_def)
  have p2: "int (length (buffer (shared c1))) + int (length xs) < maxSize (shared c1)"
    using Cons.prems(2) sh by simp
  from Cons.IH[OF p1 p2] obtain c' where
    "run (map (EnterAdd t) xs) c1 = Some c'" "\<not> in_call (call_at c' t)"
    "shared c' = (shared c1)\<lparr>buffer := buffer (shared c1) @ xs\<rparr>" "outside c' = outside c1"
    "batches (history c') = batches (history c1)"
    by blast
  with s sh out h show ?case by (simp add: batches_append)
qed

text \<open>
  C1, as the code has it. \<^verbatim>\<open>Add\<close> compares the threshold with the length of the buffer, that
  is with the number of items added since the last detach by anyone, not with the number of
  items added in all. On a batcher that \<^verbatim>\<open>New\<close> made with a flush function and a threshold
  \<open>N\<close> of at least 1, after any interleaving: the buffer holds fewer than \<open>N\<close> items, those
  appended since the last detach. An \<^verbatim>\<open>Add\<close> that brings the buffer to fewer than \<open>N\<close> items
  returns nil, detaches nothing and leaves the sink alone. An \<^verbatim>\<open>Add\<close> that brings it to \<open>N\<close>
  detaches these \<open>N\<close> items, in the order of their appending, leaves the buffer empty, calls
  the flush function once, with this batch, and returns what it returned. And when the
  first \<open>N\<close> calls of \<^verbatim>\<open>Add\<close> on the new batcher run with no step of anyone else in between,
  the \<open>N\<close>-th is the one that flushes: the sink's one call is with the \<open>N\<close> items.
\<close>

theorem threshold_flush:
  assumes r: "run acts (start n i (Some f) e) = Some c" and n1: "1 \<le> n"
    and idle: "\<not> in_call (call_at c t)"
  shows "int (length (buffer (shared c))) < n \<and>
     concat (batches (history c)) @ buffer (shared c) = appended (history c) \<and>
     (int (length (buffer (shared c))) + 1 < n \<longrightarrow>
        (\<exists>c'. step (EnterAdd t x) c = Some c' \<and> call_at c' t = CallReturned None \<and>
           buffer (shared c') = buffer (shared c) @ [x] \<and> outside c' = outside c \<and>
           batches (history c') = batches (history c))) \<and>
     (int (length (buffer (shared c))) + 1 = n \<longrightarrow>
        (\<exists>c1 c2. step (EnterAdd t x) c = Some c1 \<and>
           call_at c1 t = CallRunFlush (Some (buffer (shared c) @ [x])) \<and>
           buffer (shared c1) = [] \<and> outside c1 = outside c \<and>
           batches (history c1) = batches (history c) @ [buffer (shared c) @ [x]] \<and>
           step (CallerRunFlush t) c1 = Some c2 \<and>
           call_at c2 t =
             CallReturned (map_option ErrSink (fst (f (buffer (shared c) @ [x]) (sink_state (outside c))))) \<and>
           outside c2 =
             (outside c)\<lparr>sink_state := snd (f (buffer (shared c) @ [x]) (sink_state (outside c))),
               sink_calls := sink_calls (outside c) @ [buffer (shared c) @ [x]]\<rparr> \<and>
           buffer (shared c2) = [])) \<and>
     (int (length xs) = n \<longrightarrow>
        (\<exists>c1 c2. run (map (EnterAdd t) (butlast xs)) (start n i (Some f) e) = Some c1 \<and>
           buffer (shared c1) = butlast xs \<and> outside c1 = e \<and> batches (history c1) = [] \<and>
           run (map (EnterAdd t) xs @ [CallerRunFlush t]) (start n i (Some f) e) = Some c2 \<and>
           call_at c2 t = CallReturned (map_option ErrSink (fst (f xs (sink_state e)))) \<and>
           outside c2 = e\<lparr>sink_state := snd (f xs (sink_state e)), sink_calls := sink_calls e @ [xs]\<rparr> \<and>
           batches (history c2) = [xs] \<and> buffer (shared c2) = []))"
proof -
  let ?s = "start n i (Some f) e"
  have s0: "maxSize (shared ?s) = n \<and> int (length (buffer (shared ?s))) < n"
    using n1 by (simp add: start_def New_def)
  from below_threshold_run[OF s0 n1 r]
  have mx: "maxSize (shared c) = n" and lt: "int (length (buffer (shared c))) < n" by simp_all
  from sink_log_run[OF sink_log_start r] have fn: "flushFn (shared c) = Some f"
    by (simp add: sink_log_inv_def)
  from accounted_run[OF accounted_start r]
  have acc: "concat (batches (history c)) @ buffer (shared c) = appended (history c)"
    by (simp add: accounted_def)
  have below: "int (length (buffer (shared c))) + 1 < n \<longrightarrow>
        (\<exists>c'. step (EnterAdd t x) c = Some c' \<and> call_at c' t = CallReturned None \<and>
           buffer (shared c') = buffer (shared c) @ [x] \<and> outside c' = outside c \<and>
           batches (history c') = batches (history c))"
  proof
    assume "int (length (buffer (shared c))) + 1 < n"
    with mx have "int (length (buffer (shared c))) + 1 < maxSize (shared c)" by simp
    from add_below_threshold[OF idle this, of x] obtain c' where
      "step (EnterAdd t x) c = Some c'" "call_at c' t = CallReturned None"
      "shared c' = (shared c)\<lparr>buffer := buffer (shared c) @ [x]\<rparr>" "outside c' = outside c"
      "history c' = history c @ [Appended x]"
      by blast
    then show "\<exists>c'. step (EnterAdd t x) c = Some c' \<and> call_at c' t = CallReturned None \<and>
           buffer (shared c') = buffer (shared c) @ [x] \<and> outside c' = outside c \<and>
           batches (history c') = batches (history c)"
      by (simp add: batches_append)
  qed
  have reach: "int (length (buffer (shared c))) + 1 = n \<longrightarrow>
        (\<exists>c1 c2. step (EnterAdd t x) c = Some c1 \<and>
           call_at c1 t = CallRunFlush (Some (buffer (shared c) @ [x])) \<and>
           buffer (shared c1) = [] \<and> outside c1 = outside c \<and>
           batches (history c1) = batches (history c) @ [buffer (shared c) @ [x]] \<and>
           step (CallerRunFlush t) c1 = Some c2 \<and>
           call_at c2 t =
             CallReturned (map_option ErrSink (fst (f (buffer (shared c) @ [x]) (sink_state (outside c))))) \<and>
           outside c2 =
             (outside c)\<lparr>sink_state := snd (f (buffer (shared c) @ [x]) (sink_state (outside c))),
               sink_calls := sink_calls (outside c) @ [buffer (shared c) @ [x]]\<rparr> \<and>
           buffer (shared c2) = [])"
  proof
    assume "int (length (buffer (shared c))) + 1 = n"
    with mx have "maxSize (shared c) \<le> int (length (buffer (shared c))) + 1" by simp
    from add_at_threshold[OF idle this fn, of x] obtain c1 c2 where
      "step (EnterAdd t x) c = Some c1"
      "call_at c1 t = CallRunFlush (Some (buffer (shared c) @ [x]))"
      "shared c1 = (shared c)\<lparr>buffer := []\<rparr>" "outside c1 = outside c"
      "history c1 = history c @ [Appended x, Detached (Caller t) (Some (buffer (shared c) @ [x]))]"
      "step (CallerRunFlush t) c1 = Some c2"
      "call_at c2 t =
         CallReturned (map_option ErrSink (fst (f (buffer (shared c) @ [x]) (sink_state (outside c)))))"
      "outside c2 =
         (outside c)\<lparr>sink_state := snd (f (buffer (shared c) @ [x]) (sink_state (outside c))),
           sink_calls := sink_calls (outside c) @ [buffer (shared c) @ [x]]\<rparr>"
      "shared c2 = (shared c)\<lparr>buffer := []\<rparr>"
      by blast
    then show "\<exists>c1 c2. step (EnterAdd t x) c = Some c1 \<and>
           call_at c1 t = CallRunFlush (Some (buffer (shared c) @ [x])) \<and>
           buffer (shared c1) = [] \<and> outside c1 = outside c \<and>
           batches (history c1) = batches (history c) @ [buffer (shared c) @ [x]] \<and>
           step (CallerRunFlush t) c1 = Some c2 \<and>
           call_at c2 t =
             CallReturned (map_option ErrSink (fst (f (buffer (shared c) @ [x]) (sink_state (outside c))))) \<and>
           outside c2 =
             (outside c)\<lparr>sink_state := snd (f (buffer (shared c) @ [x]) (sink_state (outside c))),
               sink_calls := sink_calls (outside c) @ [buffer (shared c) @ [x]]\<rparr> \<and>
           buffer (shared c2) = []"
      by (simp add: batches_append)
  qed
  have alone: "int (length xs) = n \<longrightarrow>
        (\<exists>c1 c2. run (map (EnterAdd t) (butlast xs)) ?s = Some c1 \<and>
           buffer (shared c1) = butlast xs \<and> outside c1 = e \<and> batches (history c1) = [] \<and>
           run (map (EnterAdd t) xs @ [CallerRunFlush t]) ?s = Some c2 \<and>
           call_at c2 t = CallReturned (map_option ErrSink (fst (f xs (sink_state e)))) \<and>
           outside c2 = e\<lparr>sink_state := snd (f xs (sink_state e)), sink_calls := sink_calls e @ [xs]\<rparr> \<and>
           batches (history c2) = [xs] \<and> buffer (shared c2) = [])"
  proof
    assume len: "int (length xs) = n"
    with n1 have ne: "xs \<noteq> []" by auto
    then have xs: "butlast xs @ [last xs] = xs" by simp
    have i0: "\<not> in_call (call_at ?s t)" by (simp add: start_def in_call_def)
    from ne have "length (butlast xs) < length xs" by simp
    then have "int (length (butlast xs)) < n" unfolding len[symmetric] by linarith
    then have b0: "int (length (buffer (shared ?s))) + int (length (butlast xs)) < maxSize (shared ?s)"
      by (simp add: start_def New_def)
    from adds_below_threshold[OF i0 b0] obtain c1 where
      r1: "run (map (EnterAdd t) (butlast xs)) ?s = Some c1" and i1: "\<not> in_call (call_at c1 t)"
      and sh1: "shared c1 = (shared ?s)\<lparr>buffer := buffer (shared ?s) @ butlast xs\<rparr>"
      and o1: "outside c1 = outside ?s" and bt1: "batches (history c1) = batches (history ?s)"
      by blast
    have buf1: "buffer (shared c1) = butlast xs" using sh1 by (simp add: start_def New_def)
    from ne have "length (butlast xs) + 1 = length xs" by simp
    then have "int (length (butlast xs)) + 1 = n" unfolding len[symmetric] by linarith
    then have m1: "maxSize (shared c1) \<le> int (length (buffer (shared c1))) + 1"
      using sh1 buf1 by (simp add: start_def New_def)
    have f1: "flushFn (shared c1) = Some f" using sh1 by (simp add: start_def New_def)
    from add_at_threshold[OF i1 m1 f1, of "last xs"] obtain c2 c3 where
      s2: "step (EnterAdd t (last xs)) c1 = Some c2"
      and h2: "history c2 = history c1 @
          [Appended (last xs), Detached (Caller t) (Some (buffer (shared c1) @ [last xs]))]"
      and s3: "step (CallerRunFlush t) c2 = Some c3"
      and pc3: "call_at c3 t =
          CallReturned (map_option ErrSink (fst (f (buffer (shared c1) @ [last xs]) (sink_state (outside c1)))))"
      and o3: "outside c3 =
          (outside c1)\<lparr>sink_state := snd (f (buffer (shared c1) @ [last xs]) (sink_state (outside c1))),
            sink_calls := sink_calls (outside c1) @ [buffer (shared c1) @ [last xs]]\<rparr>"
      and sh3: "shared c3 = (shared c1)\<lparr>buffer := []\<rparr>"
      by blast
    from s3 have bt3: "batches (history c3) = batches (history c2)"
      by (auto simp: batches_append split: call_pc.splits prod.splits)
    have "map (EnterAdd t) xs @ [CallerRunFlush t] =
        map (EnterAdd t) (butlast xs) @ [EnterAdd t (last xs), CallerRunFlush t]"
      by (subst (1) xs[symmetric]) (simp del: append_butlast_last_id)
    then have r3: "run (map (EnterAdd t) xs @ [CallerRunFlush t]) ?s = Some c3"
      using r1 s2 s3 by (simp add: run_append)
    have o0: "outside ?s = e" and bt0: "batches (history ?s) = []" by (simp_all add: start_def)
    from r1 buf1 o1 bt1 r3 pc3 o3 sh3 bt3 h2 show
      "\<exists>c1 c2. run (map (EnterAdd t) (butlast xs)) ?s = Some c1 \<and>
           buffer (shared c1) = butlast xs \<and> outside c1 = e \<and> batches (history c1) = [] \<and>
           run (map (EnterAdd t) xs @ [CallerRunFlush t]) ?s = Some c2 \<and>
           call_at c2 t = CallReturned (map_option ErrSink (fst (f xs (sink_state e)))) \<and>
           outside c2 = e\<lparr>sink_state := snd (f xs (sink_state e)), sink_calls := sink_calls e @ [xs]\<rparr> \<and>
           batches (history c2) = [xs] \<and> buffer (shared c2) = []"
      by (simp add: xs o0 bt0 batches_append)
  qed
  from lt acc below reach alone show ?thesis by blast
qed

text \<open>Threshold 3 and the items 1, 2, 3 added by caller 0 with nothing in between: the third
  \<^verbatim>\<open>Add\<close> calls the sink, once, with \<open>[1, 2, 3]\<close>; after the first two the sink has no call.\<close>

theorem threshold_flush_witness:
  "map_option (\<lambda>c. (call_at c 0, buffer (shared c), sink_calls (outside c), batches (history c)))
     (run [EnterAdd 0 1, EnterAdd 0 2, EnterAdd 0 3, CallerRunFlush 0]
        (start 3 1000000000 (Some accepting_sink) env0))
     = Some (CallReturned None, [], [[1, 2, 3]], [[1, 2, 3]]) \<and>
   map_option (\<lambda>c. (call_at c 0, buffer (shared c), sink_calls (outside c)))
     (run [EnterAdd 0 1, EnterAdd 0 2] (start 3 1000000000 (Some accepting_sink) env0))
     = Some (CallReturned None, [1, 2], [])"
  using threshold_flush
    [of "[EnterAdd 0 1, EnterAdd 0 2]" 3 1000000000 accepting_sink env0
        "the (run [EnterAdd 0 1, EnterAdd 0 2] (start 3 1000000000 (Some accepting_sink) env0))"
        0 3 "[1, 2, 3]"]
  by (simp add: start_def New_def env0_def accepting_sink_def Add_locked_def detach_def
      runFlush_def len_def in_call_def Let_def)

text \<open>The claim as it is written fails when the loop's tick detaches between the calls.
  Threshold 3: after 1 and 2 the tick flushes \<open>[1, 2]\<close>; the \<^verbatim>\<open>Add\<close> of 3, the third item in
  all, finds a buffer of length 1, returns nil and flushes nothing.\<close>

theorem third_add_after_tick_flushes_nothing:
  "run [EnterAdd 0 1, EnterAdd 0 2, LoopTick, LoopRunsFlush, EnterAdd 0 3]
     (start 3 1000000000 (Some accepting_sink) env0) \<noteq> None \<and>
   appended (history (the (run [EnterAdd 0 1, EnterAdd 0 2, LoopTick, LoopRunsFlush, EnterAdd 0 3]
     (start 3 1000000000 (Some accepting_sink) env0)))) = [1, 2, 3] \<and>
   call_at (the (run [EnterAdd 0 1, EnterAdd 0 2, LoopTick, LoopRunsFlush, EnterAdd 0 3]
     (start 3 1000000000 (Some accepting_sink) env0))) 0 = CallReturned None \<and>
   buffer (shared (the (run [EnterAdd 0 1, EnterAdd 0 2, LoopTick, LoopRunsFlush, EnterAdd 0 3]
     (start 3 1000000000 (Some accepting_sink) env0)))) = [3] \<and>
   sink_calls (outside (the (run [EnterAdd 0 1, EnterAdd 0 2, LoopTick, LoopRunsFlush, EnterAdd 0 3]
     (start 3 1000000000 (Some accepting_sink) env0)))) = [[1, 2]]"
  by (simp add: start_def New_def env0_def accepting_sink_def Add_locked_def detach_def
      runFlush_def len_def in_call_def Let_def)

end
